theory Spec2Isabelle
  imports Main "HOL-Library.Monad_Syntax"
begin

section \<open>Events\<close>

text \<open>
  The event part of \<^verbatim>\<open>src/dispatcher.go\<close> (type \<^verbatim>\<open>ParamsEvent\<close> and its methods).
  A value of Go's \<^verbatim>\<open>interface{}\<close> is \<open>Nil\<close>, a string, or some other dynamic value,
  which is kept as an opaque code.
\<close>

datatype iface = Nil | Str string | Dyn nat

record ParamsEvent =
  name :: string
  isPropagationStopped :: bool
  params :: "string \<rightharpoonup> iface"

text \<open>
  All methods have pointer receivers and \<^verbatim>\<open>NewParamsEvent\<close> returns a pointer, so events
  live in a store and are handled through references. \<open>next_ref\<close> is the next address the
  allocator hands out.
\<close>

type_synonym ref = nat

record estore =
  objs :: "ref \<Rightarrow> ParamsEvent"
  next_ref :: ref

definition Name :: "ref \<Rightarrow> estore \<Rightarrow> string" where
  "Name event h = name (objs h event)"

definition IsPropagationStopped :: "ref \<Rightarrow> estore \<Rightarrow> bool" where
  "IsPropagationStopped event h = isPropagationStopped (objs h event)"

definition StopPropagation :: "ref \<Rightarrow> estore \<Rightarrow> estore" where
  "StopPropagation event h =
     h\<lparr>objs := (objs h)(event := (objs h event)\<lparr>isPropagationStopped := True\<rparr>)\<rparr>"

definition SetParam :: "ref \<Rightarrow> string \<Rightarrow> iface \<Rightarrow> estore \<Rightarrow> ref \<times> estore" where
  "SetParam event k v h =
     (event,
      h\<lparr>objs := (objs h)(event := (objs h event)\<lparr>params := (params (objs h event))(k \<mapsto> v)\<rparr>)\<rparr>)"

definition HasParam :: "ref \<Rightarrow> string \<Rightarrow> estore \<Rightarrow> bool" where
  "HasParam event k h = (case params (objs h event) k of None \<Rightarrow> False | Some v \<Rightarrow> True)"

definition RemoveParam :: "ref \<Rightarrow> string \<Rightarrow> estore \<Rightarrow> ref \<times> estore" where
  "RemoveParam event k h =
     (event,
      if HasParam event k h
      then h\<lparr>objs := (objs h)(event := (objs h event)\<lparr>params := (params (objs h event))(k := None)\<rparr>)\<rparr>
      else h)"

definition GetParam :: "ref \<Rightarrow> string \<Rightarrow> estore \<Rightarrow> iface \<times> bool" where
  "GetParam event k h =
     (case params (objs h event) k of None \<Rightarrow> (Str '''', False) | Some v \<Rightarrow> (v, True))"

definition NewParamsEvent :: "string \<Rightarrow> estore \<Rightarrow> ref \<times> estore" where
  "NewParamsEvent n h =
     (next_ref h,
      h\<lparr>objs := (objs h)(next_ref h :=
            \<lparr>name = n, isPropagationStopped = False, params = Map.empty\<rparr>),
        next_ref := Suc (next_ref h)\<rparr>)"

text \<open>
  The methods of \<^verbatim>\<open>ParamsEvent\<close> that write to an event, as data, and a run of such calls
  on arbitrary events of the store. They are used to say what no later call can undo.
\<close>

datatype mcall = MStopPropagation | MSetParam string iface | MRemoveParam string

fun invoke :: "ref \<times> mcall \<Rightarrow> estore \<Rightarrow> estore" where
  "invoke (r, MStopPropagation) h = StopPropagation r h"
| "invoke (r, MSetParam k v) h = snd (SetParam r k v h)"
| "invoke (r, MRemoveParam k) h = snd (RemoveParam r k h)"

definition invoke_all :: "(ref \<times> mcall) list \<Rightarrow> estore \<Rightarrow> estore" where
  "invoke_all ms h = fold invoke ms h"

definition empty_estore :: estore where
  "empty_estore = \<lparr>objs = (\<lambda>r. \<lparr>name = [], isPropagationStopped = False, params = Map.empty\<rparr>),
                   next_ref = 0\<rparr>"

section \<open>The dispatcher\<close>

text \<open>
  The definitions of this section embed \<^verbatim>\<open>src/unnamed/part_000\<close>, the dispatcher with
  name splitting. (\<^verbatim>\<open>src/dispatcher.go\<close> begins with an earlier revision of the same
  functions, in which \<^verbatim>\<open>On\<close> takes one name and the closure of \<^verbatim>\<open>executeRemove\<close> does
  not take the read lock again.)

  A listener is a Go function value. What a listener of the caller does is a function on
  the world outside the dispatcher: the store of events, to which the event it is handed
  points, and whatever else it captured (\<open>ext\<close>). Such a listener is \<open>Func pc body\<close>, where
  \<open>pc\<close> is its code pointer. The only other listeners are the closures that
  \<^verbatim>\<open>executeRemove\<close> builds, \<open>ExecuteRemove n l\<close>, which capture the name and the listener
  (and the dispatcher, which is the one they are registered in).
  Listeners of the caller are taken not to call the dispatcher themselves and not to
  panic.
\<close>

record 'x world =
  evs :: estore
  ext :: 'x

datatype 'x Listener =
    Func nat "ref \<Rightarrow> 'x world \<Rightarrow> 'x world"
  | ExecuteRemove string "'x Listener"

text \<open>
  \<^verbatim>\<open>reflect.ValueOf(l).Pointer()\<close> of a function value is its code pointer: 0 for a nil
  function, and one and the same address for every closure made from one function
  literal, so for all closures of \<^verbatim>\<open>executeRemove\<close>. A cell of a backing array holds a
  listener or nil (\<open>None\<close>).
\<close>

datatype codeptr = NilPc | FuncPc nat | ExecuteRemovePc

fun Pointer :: "'x Listener option \<Rightarrow> codeptr" where
  "Pointer None = NilPc"
| "Pointer (Some (Func pc body)) = FuncPc pc"
| "Pointer (Some (ExecuteRemove n l)) = ExecuteRemovePc"

subsection \<open>The lock\<close>

text \<open>
  \<^verbatim>\<open>sync.RWMutex\<close> as one goroutine sees it: taking a lock that cannot be granted blocks
  for ever, releasing a lock that is not held is a fatal error. Both are \<open>None\<close>, as is
  every other way of not returning.
\<close>

record rwmutex =
  readers :: nat
  writer :: bool

definition Lock :: "rwmutex \<Rightarrow> rwmutex option" where
  "Lock m = (if writer m \<or> readers m \<noteq> 0 then None else Some (m\<lparr>writer := True\<rparr>))"

definition Unlock :: "rwmutex \<Rightarrow> rwmutex option" where
  "Unlock m = (if writer m then Some (m\<lparr>writer := False\<rparr>) else None)"

definition RLock :: "rwmutex \<Rightarrow> rwmutex option" where
  "RLock m = (if writer m then None else Some (m\<lparr>readers := Suc (readers m)\<rparr>))"

definition RUnlock :: "rwmutex \<Rightarrow> rwmutex option" where
  "RUnlock m = (if readers m = 0 then None else Some (m\<lparr>readers := readers m - 1\<rparr>))"

subsection \<open>Slices and the state\<close>

text \<open>
  A slice is a header: backing array, length, capacity. Every header of this program
  starts at the first cell of its array. The arrays are in a store, because
  \<^verbatim>\<open>Off\<close> writes to the array that a running \<^verbatim>\<open>range\<close> loop reads. Reading a key that
  the map does not have gives the nil slice. The map itself is the one \<^verbatim>\<open>NewDispatcher\<close>
  makes, which is never nil.
\<close>

record slice =
  arr :: nat
  len :: nat
  cap :: nat

definition nil_slice :: slice where
  "nil_slice = \<lparr>arr = 0, len = 0, cap = 0\<rparr>"

record EventDispatcher =
  RWMutex :: rwmutex
  listeners :: "string \<rightharpoonup> slice"

record 'x machine =
  disp :: EventDispatcher
  arrays :: "nat \<Rightarrow> 'x Listener option list"
  brk :: nat
  world :: "'x world"

text \<open>
  \<^verbatim>\<open>append(s, vs...)\<close>: in place when the capacity suffices, else into a new, larger
  array. The values \<open>vs\<close> are read before anything is written, as \<^verbatim>\<open>memmove\<close> does for
  overlapping ranges. The size of a new array is the runtime's business; doubling is
  what it does for short slices, and nothing below depends on it.
\<close>

definition growcap :: "nat \<Rightarrow> nat \<Rightarrow> nat" where
  "growcap oldcap newlen = (if 2 * oldcap < newlen then newlen else 2 * oldcap)"

definition append_slice ::
  "slice \<Rightarrow> 'x Listener option list \<Rightarrow> 'x machine \<Rightarrow> slice \<times> 'x machine" where
  "append_slice s vs st =
     (let a = arrays st (arr s); newlen = len s + length vs in
      if newlen \<le> cap s
      then (s\<lparr>len := newlen\<rparr>,
            st\<lparr>arrays := (arrays st)(arr s := take (len s) a @ vs @ drop newlen a)\<rparr>)
      else (\<lparr>arr = brk st, len = newlen, cap = growcap (cap s) newlen\<rparr>,
            st\<lparr>arrays := (arrays st)(brk st :=
                   take (len s) a @ vs @ replicate (growcap (cap s) newlen - newlen) None),
               brk := Suc (brk st)\<rparr>))"

definition lookup :: "'x machine \<Rightarrow> string \<Rightarrow> slice" where
  "lookup st n = (case listeners (disp st) n of None \<Rightarrow> nil_slice | Some s \<Rightarrow> s)"

definition store :: "string \<Rightarrow> slice \<Rightarrow> 'x machine \<Rightarrow> 'x machine" where
  "store n s st = st\<lparr>disp := (disp st)\<lparr>listeners := (listeners (disp st))(n \<mapsto> s)\<rparr>\<rparr>"

text \<open>A lock operation on the mutex embedded in the dispatcher.\<close>

definition set_mutex :: "rwmutex \<Rightarrow> 'x machine \<Rightarrow> 'x machine" where
  "set_mutex m st = st\<lparr>disp := (disp st)\<lparr>RWMutex := m\<rparr>\<rparr>"

definition mutex_op :: "(rwmutex \<Rightarrow> rwmutex option) \<Rightarrow> 'x machine \<Rightarrow> 'x machine option" where
  "mutex_op f st =
     (case f (RWMutex (disp st)) of None \<Rightarrow> None | Some m \<Rightarrow> Some (set_mutex m st))"

subsection \<open>Registration\<close>

text \<open>\<^verbatim>\<open>strings.Split(s, " ")\<close>: the pieces between single space characters.\<close>

fun Split :: "string \<Rightarrow> string list" where
  "Split [] = [[]]"
| "Split (c # cs) =
     (if c = CHR '' '' then [] # Split cs
      else (c # hd (Split cs)) # tl (Split cs))"

definition getNames :: "string \<Rightarrow> string list" where
  "getNames n = filter (\<lambda>nm. nm \<noteq> []) (Split n)"

definition on :: "string \<Rightarrow> 'x Listener \<Rightarrow> 'x machine \<Rightarrow> 'x machine option" where
  "on n l st = do {
     st1 \<leftarrow> mutex_op Lock st;
     let (s, st2) = append_slice (lookup st1 n) [Some l] st1;
     mutex_op Unlock (store n s st2)
   }"

fun On_loop :: "string list \<Rightarrow> 'x Listener \<Rightarrow> 'x machine \<Rightarrow> 'x machine option" where
  "On_loop [] l st = Some st"
| "On_loop (nm # names) l st = do { st1 \<leftarrow> on nm l st; On_loop names l st1 }"

definition On :: "string \<Rightarrow> 'x Listener \<Rightarrow> 'x machine \<Rightarrow> 'x machine option" where
  "On n l st = On_loop (getNames n) l st"

definition executeRemove :: "string \<Rightarrow> 'x Listener \<Rightarrow> 'x Listener" where
  "executeRemove n l = ExecuteRemove n l"

text \<open>The loop of \<^verbatim>\<open>Once\<close> registers under \<open>n\<close>, the whole argument, as the source does.\<close>

fun Once_loop :: "string \<Rightarrow> string list \<Rightarrow> 'x Listener \<Rightarrow> 'x machine \<Rightarrow> 'x machine option" where
  "Once_loop n [] l st = Some st"
| "Once_loop n (nm # names) l st = do {
     st1 \<leftarrow> on n (executeRemove nm l) st;
     Once_loop n names l st1
   }"

definition Once :: "string \<Rightarrow> 'x Listener \<Rightarrow> 'x machine \<Rightarrow> 'x machine option" where
  "Once n l st = Once_loop n (getNames n) l st"

subsection \<open>Removal\<close>

text \<open>
  The loop of \<^verbatim>\<open>Off\<close> ranges over the header \<open>ls\<close> read before the loop: the indices are
  those below its length, and each cell is read from the array when its turn comes.
  (An index below the length of a header is within its array.)
\<close>

fun Off_loop ::
  "string \<Rightarrow> codeptr \<Rightarrow> slice \<Rightarrow> nat list \<Rightarrow> 'x machine \<Rightarrow> 'x machine" where
  "Off_loop n p ls [] st = st"
| "Off_loop n p ls (i # is) st =
     Off_loop n p ls is
       (if Pointer (arrays st (arr ls) ! i) = p
        then (let (s, st') = append_slice (ls\<lparr>len := i\<rparr>)
                               (drop (Suc i) (take (len ls) (arrays st (arr ls)))) st
              in store n s st')
        else st)"

definition Off :: "string \<Rightarrow> 'x Listener \<Rightarrow> 'x machine \<Rightarrow> 'x machine option" where
  "Off n l st = do {
     st1 \<leftarrow> mutex_op Lock st;
     let ls = lookup st1 n;
     mutex_op Unlock (Off_loop n (Pointer (Some l)) ls [0..<len ls] st1)
   }"

definition OffAll :: "string \<Rightarrow> 'x machine \<Rightarrow> 'x machine option" where
  "OffAll n st = do {
     st1 \<leftarrow> mutex_op Lock st;
     mutex_op Unlock
       (case listeners (disp st1) n of
          None \<Rightarrow> st1
        | Some s \<Rightarrow> st1\<lparr>disp := (disp st1)\<lparr>listeners := (listeners (disp st1))(n := None)\<rparr>\<rparr>)
   }"

definition HasListeners :: "string \<Rightarrow> 'x machine \<Rightarrow> bool" where
  "HasListeners n st =
     (case listeners (disp st) n of None \<Rightarrow> False | Some s \<Rightarrow> len s \<noteq> 0)"

subsection \<open>Dispatch\<close>

text \<open>
  Calling a listener. The closure of \<^verbatim>\<open>executeRemove\<close> calls the listener it wraps, gives
  up the read lock, calls \<^verbatim>\<open>Off\<close> with itself and takes the read lock again.
\<close>

fun call :: "'x Listener \<Rightarrow> ref \<Rightarrow> 'x machine \<Rightarrow> 'x machine option" where
  "call (Func pc body) e st = Some (st\<lparr>world := body e (world st)\<rparr>)"
| "call (ExecuteRemove n l) e st = do {
     st1 \<leftarrow> call l e st;
     st2 \<leftarrow> mutex_op RUnlock st1;
     st3 \<leftarrow> Off n (ExecuteRemove n l) st2;
     mutex_op RLock st3
   }"

text \<open>
  The loop of \<^verbatim>\<open>dispatch\<close> ranges over the header \<open>s\<close> read before the loop. Calling a nil
  function panics.
\<close>

fun dispatch_loop :: "slice \<Rightarrow> ref \<Rightarrow> nat list \<Rightarrow> 'x machine \<Rightarrow> 'x machine option" where
  "dispatch_loop s e [] st = Some st"
| "dispatch_loop s e (i # is) st =
     (case arrays st (arr s) ! i of
        None \<Rightarrow> None
      | Some l \<Rightarrow> do { st1 \<leftarrow> call l e st; dispatch_loop s e is st1 })"

definition dispatch :: "ref \<Rightarrow> 'x machine \<Rightarrow> (ref \<times> 'x machine) option" where
  "dispatch e st =
     (let s = lookup st (Name e (evs (world st))) in
      do { st1 \<leftarrow> dispatch_loop s e [0..<len s] st; Some (e, st1) })"

definition Dispatch :: "ref \<Rightarrow> 'x machine \<Rightarrow> (ref \<times> 'x machine) option" where
  "Dispatch e st = do {
     st1 \<leftarrow> mutex_op RLock st;
     (r, st2) \<leftarrow> dispatch e st1;
     st3 \<leftarrow> mutex_op RUnlock st2;
     Some (r, st3)
   }"

definition NewDispatcher :: EventDispatcher where
  "NewDispatcher = \<lparr>RWMutex = \<lparr>readers = 0, writer = False\<rparr>, listeners = Map.empty\<rparr>"

text \<open>A program that has just made its dispatcher: no backing array yet (address 0 is nil).\<close>

definition fresh :: "'x world \<Rightarrow> 'x machine" where
  "fresh w = \<lparr>disp = NewDispatcher, arrays = (\<lambda>a. []), brk = 1, world = w\<rparr>"

section \<open>The registry\<close>

text \<open>
  \<^verbatim>\<open>GetDispatcher\<close> and \<^verbatim>\<open>getDispatcher\<close> of \<^verbatim>\<open>src/unnamed/part_000\<close>. The package
  variable \<^verbatim>\<open>dispatchers\<close> is a map that starts out nil (\<open>None\<close>); its values are pointers,
  so the dispatchers live in a store of instances and a pointer is an address of that
  store. \<^verbatim>\<open>NewDispatcher\<close> takes the next free address. A key that is neither nil nor a
  string fails the type assertion \<^verbatim>\<open>k.(string)\<close>, and writing to a nil map panics: both
  are \<open>None\<close>.
\<close>

definition DefaultDispatcherKey :: string where
  "DefaultDispatcherKey = ''event_dispatcher''"

record registry =
  dispatchers :: "(string \<rightharpoonup> nat) option"
  instances :: "nat \<rightharpoonup> EventDispatcher"
  next_instance :: nat

definition getDispatcher :: "string \<Rightarrow> registry \<Rightarrow> (nat \<times> registry) option" where
  "getDispatcher k r =
     (case dispatchers r of
        None \<Rightarrow> None
      | Some m \<Rightarrow>
          (case m k of
             None \<Rightarrow>
               Some (next_instance r,
                     r\<lparr>dispatchers := Some (m(k \<mapsto> next_instance r)),
                       instances := (instances r)(next_instance r \<mapsto> NewDispatcher),
                       next_instance := Suc (next_instance r)\<rparr>)
           | Some d \<Rightarrow> Some (d, r)))"

definition GetDispatcher :: "iface \<Rightarrow> registry \<Rightarrow> (nat \<times> registry) option" where
  "GetDispatcher k r =
     (let r1 = (if dispatchers r = None then r\<lparr>dispatchers := Some Map.empty\<rparr> else r) in
      case k of
        Nil \<Rightarrow> getDispatcher DefaultDispatcherKey r1
      | Str key \<Rightarrow> getDispatcher key r1
      | Dyn v \<Rightarrow> None)"

section \<open>Notions for the statements\<close>

subsection \<open>What is registered under a name\<close>

text \<open>
  The cells a header shows, the sequence stored under a name (\<open>None\<close> when the name is
  not a key of the map), and the same with a missing key read as the empty sequence.
\<close>

definition cells :: "'x machine \<Rightarrow> slice \<Rightarrow> 'x Listener option list" where
  "cells st s = take (len s) (arrays st (arr s))"

definition seq :: "'x machine \<Rightarrow> string \<Rightarrow> 'x Listener option list option" where
  "seq st n = map_option (cells st) (listeners (disp st) n)"

definition entries :: "'x machine \<Rightarrow> string \<Rightarrow> 'x Listener option list" where
  "entries st n = (case seq st n of None \<Rightarrow> [] | Some xs \<Rightarrow> xs)"

subsection \<open>Well-formed states\<close>

text \<open>
  What holds of the state whenever the program is between two calls of the dispatcher:
  nobody holds the lock; every header stored in the map lies within its backing array,
  which has been allocated, and shows no nil cell; and no two names share a backing
  array. \<open>fresh\<close> is well formed and the operations keep states well formed, which is proved
  below.
\<close>

definition unlocked :: "'x machine \<Rightarrow> bool" where
  "unlocked st \<longleftrightarrow> readers (RWMutex (disp st)) = 0 \<and> \<not> writer (RWMutex (disp st))"

definition slice_ok :: "'x machine \<Rightarrow> slice \<Rightarrow> bool" where
  "slice_ok st s \<longleftrightarrow>
     len s \<le> cap s \<and> cap s \<le> length (arrays st (arr s)) \<and> arr s < brk st
     \<and> None \<notin> set (cells st s)"

definition heap_ok :: "'x machine \<Rightarrow> bool" where
  "heap_ok st \<longleftrightarrow>
     (\<forall>n s. listeners (disp st) n = Some s \<longrightarrow> slice_ok st s)
     \<and> (\<forall>n m s t. listeners (disp st) n = Some s \<longrightarrow> listeners (disp st) m = Some t \<longrightarrow>
          n \<noteq> m \<longrightarrow> arr s \<noteq> arr t)"

definition wf :: "'x machine \<Rightarrow> bool" where
  "wf st \<longleftrightarrow> unlocked st \<and> heap_ok st"

subsection \<open>The operations between taking and releasing the lock\<close>

text \<open>
  What \<^verbatim>\<open>on\<close>, \<^verbatim>\<open>Off\<close>, \<^verbatim>\<open>OffAll\<close>, a called listener and the loop of \<^verbatim>\<open>dispatch\<close> do when
  the lock is granted. They are proved equal to the source's functions on states in which
  the lock is free (or, inside \<^verbatim>\<open>Dispatch\<close>, held by the one reader), and serve the proofs
  only. \<open>Off_step\<close> is one removal in the loop of \<^verbatim>\<open>Off\<close>, and \<open>shift i L\<close> what it does to
  the backing array: the cells from \<open>i + 1\<close> up to \<open>L - 1\<close> move down by one and the last of
  them stays where it was.
\<close>

definition on_body :: "string \<Rightarrow> 'x Listener \<Rightarrow> 'x machine \<Rightarrow> 'x machine" where
  "on_body n l st = (let (s, st2) = append_slice (lookup st n) [Some l] st in store n s st2)"

definition Off_step :: "string \<Rightarrow> slice \<Rightarrow> nat \<Rightarrow> 'x machine \<Rightarrow> 'x machine" where
  "Off_step n ls i st =
     store n (ls\<lparr>len := len ls - 1\<rparr>)
       (st\<lparr>arrays := (arrays st)(arr ls :=
           take i (arrays st (arr ls)) @ drop (Suc i) (take (len ls) (arrays st (arr ls)))
             @ drop (len ls - 1) (arrays st (arr ls)))\<rparr>)"

definition Off_body :: "string \<Rightarrow> 'x Listener \<Rightarrow> 'x machine \<Rightarrow> 'x machine" where
  "Off_body n l st = Off_loop n (Pointer (Some l)) (lookup st n) [0..<len (lookup st n)] st"

definition shift :: "nat \<Rightarrow> nat \<Rightarrow> 'a list \<Rightarrow> 'a list" where
  "shift i L a = take i a @ drop (Suc i) (take L a) @ drop (L - 1) a"

definition off_rel :: "string \<Rightarrow> slice \<Rightarrow> 'x machine \<Rightarrow> 'x machine \<Rightarrow> bool" where
  "off_rel n ls st0 st \<longleftrightarrow>
     world st = world st0 \<and> brk st = brk st0 \<and> RWMutex (disp st) = RWMutex (disp st0)
     \<and> (\<forall>a. a \<noteq> arr ls \<longrightarrow> arrays st a = arrays st0 a)
     \<and> length (arrays st (arr ls)) = length (arrays st0 (arr ls))
     \<and> set (take (len ls) (arrays st (arr ls))) \<subseteq> set (take (len ls) (arrays st0 (arr ls)))
     \<and> (\<forall>m. m \<noteq> n \<longrightarrow> listeners (disp st) m = listeners (disp st0) m)
     \<and> (st = st0 \<or> listeners (disp st) n = Some (ls\<lparr>len := len ls - 1\<rparr>))"

definition OffAll_body :: "string \<Rightarrow> 'x machine \<Rightarrow> 'x machine" where
  "OffAll_body n st =
     (case listeners (disp st) n of
        None \<Rightarrow> st
      | Some s \<Rightarrow> st\<lparr>disp := (disp st)\<lparr>listeners := (listeners (disp st))(n := None)\<rparr>\<rparr>)"

fun call_body :: "'x Listener \<Rightarrow> ref \<Rightarrow> 'x machine \<Rightarrow> 'x machine" where
  "call_body (Func pc body) e st = st\<lparr>world := body e (world st)\<rparr>"
| "call_body (ExecuteRemove n l) e st = Off_body n (ExecuteRemove n l) (call_body l e st)"

fun dispatch_body :: "slice \<Rightarrow> ref \<Rightarrow> nat list \<Rightarrow> 'x machine \<Rightarrow> 'x machine option" where
  "dispatch_body s e [] st = Some st"
| "dispatch_body s e (i # is) st =
     (case arrays st (arr s) ! i of
        None \<Rightarrow> None
      | Some l \<Rightarrow> dispatch_body s e is (call_body l e st))"

definition rlocked :: "'x machine \<Rightarrow> bool" where
  "rlocked st \<longleftrightarrow> readers (RWMutex (disp st)) = 1 \<and> \<not> writer (RWMutex (disp st))"

subsection \<open>What a dispatch calls\<close>

text \<open>
  A call of a listener does two things: it changes the world (\<open>run\<close>: the body of the
  caller's function, also when wrapped) and it changes the dispatcher (\<open>removal\<close>: a
  wrapper takes itself out). \<open>schedule\<close> follows the loop of \<^verbatim>\<open>dispatch\<close> through the
  removals alone and lists the listeners it calls, in order; \<open>invoked\<close> is that list for
  an event. That \<^verbatim>\<open>Dispatch\<close> runs exactly this list is proved below.
\<close>

fun run :: "'x Listener \<Rightarrow> ref \<Rightarrow> 'x world \<Rightarrow> 'x world" where
  "run (Func pc body) e w = body e w"
| "run (ExecuteRemove n l) e w = run l e w"

fun removal :: "'x Listener \<Rightarrow> 'x machine \<Rightarrow> 'x machine" where
  "removal (Func pc body) st = st"
| "removal (ExecuteRemove n l) st = Off_body n (ExecuteRemove n l) (removal l st)"

fun schedule :: "slice \<Rightarrow> nat list \<Rightarrow> 'x machine \<Rightarrow> ('x Listener list \<times> 'x machine) option" where
  "schedule s [] st = Some ([], st)"
| "schedule s (i # is) st =
     (case arrays st (arr s) ! i of
        None \<Rightarrow> None
      | Some l \<Rightarrow> map_option (\<lambda>(ls, st'). (l # ls, st')) (schedule s is (removal l st)))"

definition invoked :: "ref \<Rightarrow> 'x machine \<Rightarrow> 'x Listener list option" where
  "invoked e st =
     (let s = lookup st (Name e (evs (world st))) in map_option fst (schedule s [0..<len s] st))"

subsection \<open>The registry over its lifetime\<close>

text \<open>
  A run of \<^verbatim>\<open>GetDispatcher\<close> calls, the registry of a program that has not called it yet,
  the string a key stands for, the map with nil read as empty, and what holds of every
  registry the program can reach: the instances in the map have been allocated, nothing
  is allocated at or beyond the next free address, and no instance is stored under two
  keys.
\<close>

fun GetDispatcher_all :: "iface list \<Rightarrow> registry \<Rightarrow> registry option" where
  "GetDispatcher_all [] r = Some r"
| "GetDispatcher_all (k # ks) r =
     (case GetDispatcher k r of None \<Rightarrow> None | Some (d, r1) \<Rightarrow> GetDispatcher_all ks r1)"

definition registry0 :: registry where
  "registry0 = \<lparr>dispatchers = None, instances = Map.empty, next_instance = 0\<rparr>"

fun key_of :: "iface \<Rightarrow> string option" where
  "key_of Nil = Some DefaultDispatcherKey"
| "key_of (Str key) = Some key"
| "key_of (Dyn v) = None"

definition the_map :: "registry \<Rightarrow> string \<rightharpoonup> nat" where
  "the_map r = (case dispatchers r of None \<Rightarrow> Map.empty | Some m \<Rightarrow> m)"

definition registry_ok :: "registry \<Rightarrow> bool" where
  "registry_ok r \<longleftrightarrow>
     (\<forall>k a. the_map r k = Some a \<longrightarrow> a < next_instance r \<and> instances r a \<noteq> None)
     \<and> (\<forall>a. next_instance r \<le> a \<longrightarrow> instances r a = None)
     \<and> (\<forall>k k' a. the_map r k = Some a \<longrightarrow> the_map r k' = Some a \<longrightarrow> k = k')"

subsection \<open>Concrete inputs\<close>

text \<open>
  For the witnesses and counterexamples: a world whose event 0 is named
  \<^verbatim>\<open>test_event\<close> and whose \<open>ext\<close> is a log; one whose event 0 is named \<^verbatim>\<open>a b\<close> and whose
  event 1 is named \<open>a\<close>; listeners that write their number to the log; a listener that
  stops the propagation of its event; and a name with a tab in it.
\<close>

definition w0 :: "nat list world" where
  "w0 = \<lparr>evs = snd (NewParamsEvent ''test_event'' empty_estore), ext = []\<rparr>"

definition logger :: "nat \<Rightarrow> nat list Listener" where
  "logger k = Func k (\<lambda>e w. w\<lparr>ext := ext w @ [k]\<rparr>)"

definition stopper :: "nat list Listener" where
  "stopper = Func 9 (\<lambda>e w. w\<lparr>evs := StopPropagation e (evs w)\<rparr>)"

definition tab_name :: string where
  "tab_name = [CHR ''a'', CHR 0x09, CHR ''b'']"

definition w_ab :: "nat list world" where
  "w_ab = \<lparr>evs = snd (NewParamsEvent ''a'' (snd (NewParamsEvent ''a b'' empty_estore))),
           ext = []\<rparr>"

section \<open>Properties of events\<close>

lemma invoke_keeps_stopped:
  assumes "IsPropagationStopped e h"
  shows "IsPropagationStopped e (invoke c h)"
proof (cases c)
  case (Pair r m)
  then show ?thesis
    using assms
    by (cases m)
       (auto simp add: IsPropagationStopped_def StopPropagation_def SetParam_def RemoveParam_def)
qed

lemma invoke_all_keeps_stopped:
  "IsPropagationStopped e h \<Longrightarrow> IsPropagationStopped e (invoke_all ms h)"
  unfolding invoke_all_def
  by (induction ms arbitrary: h) (simp_all add: invoke_keeps_stopped)

text \<open>
  C9. Parameters round-trip: after \<open>SetParam k v\<close>, \<open>GetParam k\<close> is \<open>(v, true)\<close>; on an unset
  key \<open>GetParam\<close> is the empty string and \<open>false\<close>; after \<open>RemoveParam k\<close>, \<open>HasParam k\<close> is
  false, and \<open>RemoveParam\<close> of an absent key changes nothing; \<open>SetParam\<close> and \<open>RemoveParam\<close>
  return the receiver. A new event is not stopped, \<open>StopPropagation\<close> sets the flag, and no
  later call of a method of any event clears it.
\<close>

theorem params_event_roundtrip:
  "GetParam e k (snd (SetParam e k v h)) = (v, True)
   \<and> (\<not> HasParam e k h \<longrightarrow> GetParam e k h = (Str '''', False))
   \<and> \<not> HasParam e k (snd (RemoveParam e k h))
   \<and> (\<not> HasParam e k h \<longrightarrow> RemoveParam e k h = (e, h))
   \<and> fst (SetParam e k v h) = e
   \<and> fst (RemoveParam e k h) = e
   \<and> \<not> IsPropagationStopped (fst (NewParamsEvent n h)) (snd (NewParamsEvent n h))
   \<and> Name (fst (NewParamsEvent n h)) (snd (NewParamsEvent n h)) = n
   \<and> IsPropagationStopped e (StopPropagation e h)
   \<and> IsPropagationStopped e (invoke_all ms (StopPropagation e h))"
proof -
  have stopped: "IsPropagationStopped e (StopPropagation e h)"
    by (simp add: IsPropagationStopped_def StopPropagation_def)
  have "IsPropagationStopped e (invoke_all ms (StopPropagation e h))"
    using stopped by (rule invoke_all_keeps_stopped)
  moreover have "GetParam e k (snd (SetParam e k v h)) = (v, True)"
    by (simp add: GetParam_def SetParam_def)
  moreover have "\<not> HasParam e k h \<longrightarrow> GetParam e k h = (Str '''', False)"
    by (simp add: GetParam_def HasParam_def split: option.splits)
  moreover have "\<not> HasParam e k (snd (RemoveParam e k h))"
    by (simp add: RemoveParam_def HasParam_def split: option.splits)
  moreover have "\<not> HasParam e k h \<longrightarrow> RemoveParam e k h = (e, h)"
    by (simp add: RemoveParam_def)
  moreover have "fst (SetParam e k v h) = e \<and> fst (RemoveParam e k h) = e"
    by (simp add: SetParam_def RemoveParam_def)
  moreover have "\<not> IsPropagationStopped (fst (NewParamsEvent n h)) (snd (NewParamsEvent n h))
                 \<and> Name (fst (NewParamsEvent n h)) (snd (NewParamsEvent n h)) = n"
    by (simp add: NewParamsEvent_def IsPropagationStopped_def Name_def)
  ultimately show ?thesis using stopped by blast
qed

theorem params_event_roundtrip_witness:
  "\<not> HasParam 0 ''test_key'' (snd (NewParamsEvent ''test_name'' empty_estore))
   \<and> GetParam 0 ''test_key'' (snd (NewParamsEvent ''test_name'' empty_estore)) = (Str '''', False)
   \<and> RemoveParam 0 ''test_key'' (snd (NewParamsEvent ''test_name'' empty_estore))
       = (0, snd (NewParamsEvent ''test_name'' empty_estore))
   \<and> GetParam 0 ''test_key''
       (snd (SetParam 0 ''test_key'' (Str ''test value'')
          (snd (NewParamsEvent ''test_name'' empty_estore)))) = (Str ''test value'', True)"
proof -
  have absent: "\<not> HasParam 0 ''test_key'' (snd (NewParamsEvent ''test_name'' empty_estore))"
    by (simp add: HasParam_def NewParamsEvent_def empty_estore_def)
  show ?thesis
    using absent
      params_event_roundtrip [of 0 "''test_key''" "Str ''test value''"
        "snd (NewParamsEvent ''test_name'' empty_estore)"]
    by blast
qed

section \<open>The lock protocol of the registrations\<close>

lemma set_mutex_same [simp]: "set_mutex (RWMutex (disp st)) st = st"
  by (simp add: set_mutex_def)

lemma set_mutex_twice [simp]: "set_mutex m (set_mutex m' st) = set_mutex m st"
  by (simp add: set_mutex_def)

lemma locked_section:
  assumes "unlocked st" and "\<And>m. f (set_mutex m st) = set_mutex m (f st)"
  shows "do { st1 \<leftarrow> mutex_op Lock st; mutex_op Unlock (f st1) } = Some (f st)"
proof -
  let ?m = "RWMutex (disp st)"
  have 1: "mutex_op Lock st = Some (set_mutex (?m\<lparr>writer := True\<rparr>) st)"
    using assms(1) by (simp add: mutex_op_def Lock_def unlocked_def)
  have 2: "RWMutex (disp (set_mutex m (f st))) = m" for m
    by (simp add: set_mutex_def)
  have 3: "?m\<lparr>writer := False\<rparr> = ?m"
    using assms(1) by (simp add: unlocked_def)
  have 4: "set_mutex ?m (f st) = f st"
    using assms(2) [of ?m] by simp
  have "mutex_op Unlock (f (set_mutex (?m\<lparr>writer := True\<rparr>) st)) = Some (f st)"
    by (simp add: assms(2) mutex_op_def Unlock_def 2 3 4)
  then show ?thesis
    unfolding 1 by simp
qed

lemma append_slice_mutex:
  "append_slice s vs (set_mutex m st) = (fst (append_slice s vs st), set_mutex m (snd (append_slice s vs st)))"
  by (simp add: append_slice_def set_mutex_def Let_def)

lemma lookup_mutex [simp]: "lookup (set_mutex m st) n = lookup st n"
  by (simp add: lookup_def set_mutex_def)

lemma store_mutex: "store n s (set_mutex m st) = set_mutex m (store n s st)"
  by (simp add: store_def set_mutex_def)

lemma on_body_mutex: "on_body n l (set_mutex m st) = set_mutex m (on_body n l st)"
  by (simp add: on_body_def append_slice_mutex store_mutex split: prod.splits)

lemma on_alt: "on n l st = do { st1 \<leftarrow> mutex_op Lock st; mutex_op Unlock (on_body n l st1) }"
  by (simp add: on_def on_body_def case_prod_beta)

lemma on_unlocked: "unlocked st \<Longrightarrow> on n l st = Some (on_body n l st)"
  unfolding on_alt by (rule locked_section) (simp_all add: on_body_mutex)

section \<open>Appending a listener\<close>

lemma on_body_absent:
  "listeners (disp st) n = None \<Longrightarrow>
   on_body n l st = store n \<lparr>arr = brk st, len = 1, cap = 1\<rparr>
      (st\<lparr>arrays := (arrays st)(brk st := [Some l]), brk := Suc (brk st)\<rparr>)"
  by (simp add: on_body_def lookup_def nil_slice_def append_slice_def growcap_def)

lemma on_body_inplace:
  "listeners (disp st) n = Some s \<Longrightarrow> len s < cap s \<Longrightarrow>
   on_body n l st = store n (s\<lparr>len := Suc (len s)\<rparr>)
      (st\<lparr>arrays := (arrays st)(arr s :=
          take (len s) (arrays st (arr s)) @ Some l # drop (Suc (len s)) (arrays st (arr s)))\<rparr>)"
  by (simp add: on_body_def lookup_def append_slice_def Let_def)

lemma on_body_grow:
  "listeners (disp st) n = Some s \<Longrightarrow> cap s \<le> len s \<Longrightarrow>
   on_body n l st = store n \<lparr>arr = brk st, len = Suc (len s), cap = growcap (cap s) (Suc (len s))\<rparr>
      (st\<lparr>arrays := (arrays st)(brk st :=
          take (len s) (arrays st (arr s)) @ Some l
            # replicate (growcap (cap s) (Suc (len s)) - Suc (len s)) None),
         brk := Suc (brk st)\<rparr>)"
  by (simp add: on_body_def lookup_def append_slice_def Let_def)

lemma growcap_ge: "newlen \<le> growcap c newlen"
  by (simp add: growcap_def)

lemma on_body_seq:
  assumes "heap_ok st"
  shows "seq (on_body n l st) n = Some (entries st n @ [Some l])"
proof (cases "listeners (disp st) n")
  case None
  then show ?thesis
    by (simp add: on_body_absent seq_def entries_def store_def cells_def)
next
  case (Some s)
  then have ok: "slice_ok st s" using assms by (auto simp: heap_ok_def)
  show ?thesis
  proof (cases "len s < cap s")
    case True
    then show ?thesis using Some ok
      by (simp add: on_body_inplace seq_def entries_def store_def cells_def slice_ok_def)
  next
    case False
    then show ?thesis using Some ok
      by (simp add: on_body_grow seq_def entries_def store_def cells_def slice_ok_def)
  qed
qed

lemma heap_okD1: "heap_ok st \<Longrightarrow> listeners (disp st) n = Some s \<Longrightarrow> slice_ok st s"
  by (auto simp: heap_ok_def)

lemma heap_okD2:
  "heap_ok st \<Longrightarrow> listeners (disp st) n = Some s \<Longrightarrow> listeners (disp st) m = Some t \<Longrightarrow>
   n \<noteq> m \<Longrightarrow> arr s \<noteq> arr t"
  by (auto simp: heap_ok_def)

lemma on_body_frame:
  assumes "heap_ok st" "m \<noteq> n"
  shows "seq (on_body n l st) m = seq st m"
proof (cases "listeners (disp st) m")
  case None
  then show ?thesis using assms(2)
    by (cases "listeners (disp st) n"; cases "len (the (listeners (disp st) n)) < cap (the (listeners (disp st) n))")
       (simp_all add: on_body_absent on_body_inplace on_body_grow seq_def store_def)
next
  case (Some t)
  then have t: "arr t < brk st" using assms(1) heap_okD1 [of st m t] by (simp add: slice_ok_def)
  show ?thesis
  proof (cases "listeners (disp st) n")
    case None
    then show ?thesis using Some assms(2) t
      by (simp add: on_body_absent seq_def store_def cells_def)
  next
    case s: (Some s)
    have ne: "arr t \<noteq> arr s" using heap_okD2 [OF assms(1) Some s assms(2)] .
    show ?thesis
      using Some s assms(2) t ne
      by (cases "len s < cap s")
         (simp_all add: on_body_inplace on_body_grow seq_def store_def cells_def)
  qed
qed

lemma on_body_other [simp]:
  "world (on_body n l st) = world st"
  "RWMutex (disp (on_body n l st)) = RWMutex (disp st)"
  "dom (listeners (disp (on_body n l st))) = insert n (dom (listeners (disp st)))"
  by (simp_all add: on_body_def append_slice_def store_def Let_def)

lemma on_body_heap_ok:
  assumes "heap_ok st"
  shows "heap_ok (on_body n l st)"
proof (cases "listeners (disp st) n")
  case None
  have lt: "arr t < brk st" if "listeners (disp st) m = Some t" for m t
    using heap_okD1 [OF assms that] by (simp add: slice_ok_def)
  show ?thesis
    unfolding heap_ok_def on_body_absent [OF None]
    using assms
    apply (auto simp add: store_def slice_ok_def cells_def heap_ok_def dest: lt)
    done
next
  case (Some s)
  have lt: "arr t < brk st" if "listeners (disp st) m = Some t" for m t
    using heap_okD1 [OF assms that] by (simp add: slice_ok_def)
  have ne: "arr t \<noteq> arr s" if "listeners (disp st) m = Some t" "m \<noteq> n" for m t
    using heap_okD2 [OF assms that(1) Some that(2)] .
  have ok: "slice_ok st s" using heap_okD1 [OF assms Some] .
  show ?thesis
  proof (cases "len s < cap s")
    case True
    show ?thesis
      unfolding heap_ok_def on_body_inplace [OF Some True]
      using assms ok True
      apply (auto simp add: store_def slice_ok_def cells_def heap_ok_def dest: lt ne)
      done
  next
    case False
    then have le: "cap s \<le> len s" by simp
    show ?thesis
      unfolding heap_ok_def on_body_grow [OF Some le]
      using assms ok le growcap_ge [of "Suc (len s)" "cap s"]
      apply (auto simp add: store_def slice_ok_def cells_def heap_ok_def dest: lt ne)
      done
  qed
qed

section \<open>The loop of Off\<close>

lemma Off_loop_append:
  "Off_loop n p ls (is @ js) st = Off_loop n p ls js (Off_loop n p ls is st)"
  by (induction "is" arbitrary: st) simp_all

lemma Off_loop_mutex:
  "Off_loop n p ls is (set_mutex m st) = set_mutex m (Off_loop n p ls is st)"
proof (induction "is" arbitrary: st)
  case Nil
  show ?case by simp
next
  case (Cons i "is")
  have a: "arrays (set_mutex m st) = arrays st" by (simp add: set_mutex_def)
  show ?case
    by (simp add: a Cons.IH [symmetric] append_slice_mutex store_mutex case_prod_beta)
qed

lemma Off_alt:
  "Off n l st = do { st1 \<leftarrow> mutex_op Lock st; mutex_op Unlock (Off_body n l st1) }"
  by (simp add: Off_def Off_body_def Let_def)

lemma Off_unlocked: "unlocked st \<Longrightarrow> Off n l st = Some (Off_body n l st)"
  unfolding Off_alt by (rule locked_section) (simp_all add: Off_body_def Off_loop_mutex)

lemma Off_loop_nomatch:
  "\<forall>i \<in> set is. Pointer (arrays st (arr ls) ! i) \<noteq> p \<Longrightarrow> Off_loop n p ls is st = st"
  by (induction "is") simp_all

lemma Off_loop_match:
  assumes "Pointer (arrays st (arr ls) ! i) = p" "i < len ls" "len ls \<le> cap ls"
    "len ls \<le> length (arrays st (arr ls))"
  shows "Off_loop n p ls (i # is) st = Off_loop n p ls is (Off_step n ls i st)"
proof -
  have "i + (len ls - Suc i) = len ls - 1" using assms(2) by simp
  then show ?thesis
    using assms
    by (simp add: append_slice_def Off_step_def Let_def min_def)
qed

lemma Off_loop_induct:
  assumes "P st"
    and "\<And>i st. i \<in> set is \<Longrightarrow> P st \<Longrightarrow> Pointer (arrays st (arr ls) ! i) = p \<Longrightarrow>
          len ls \<le> length (arrays st (arr ls)) \<Longrightarrow> P (Off_step n ls i st)"
    and "\<And>st. P st \<Longrightarrow> len ls \<le> length (arrays st (arr ls))"
    and "\<forall>i \<in> set is. i < len ls" "len ls \<le> cap ls"
  shows "P (Off_loop n p ls is st)"
  using assms
proof (induction "is" arbitrary: st)
  case Nil
  then show ?case by simp
next
  case (Cons i "is")
  show ?case
  proof (cases "Pointer (arrays st (arr ls) ! i) = p")
    case True
    have l: "len ls \<le> length (arrays st (arr ls))" using Cons.prems(1,3) by blast
    have i: "i < len ls" using Cons.prems(4) by simp
    have "P (Off_step n ls i st)"
      using Cons.prems(2) [of i st] Cons.prems(1) True l by simp
    then have "P (Off_loop n p ls is (Off_step n ls i st))"
      using Cons.prems by (intro Cons.IH) auto
    then show ?thesis
      using Off_loop_match [OF True i Cons.prems(5) l] by simp
  next
    case False
    then show ?thesis
      using Cons.prems by (simp add: Cons.IH)
  qed
qed

lemma length_shift: "i < L \<Longrightarrow> L \<le> length a \<Longrightarrow> length (shift i L a) = length a"
  by (simp add: shift_def)

lemma nth_shift:
  assumes "i < L" "L \<le> length a" "j < length a"
  shows "shift i L a ! j = (if j < i then a ! j else if j < L - 1 then a ! Suc j else a ! j)"
  using assms
  by (auto simp add: shift_def nth_append min_def)

lemma set_take_shift:
  assumes "i < L" "L \<le> length a"
  shows "set (take L (shift i L a)) \<subseteq> set (take L a)"
proof
  fix x assume "x \<in> set (take L (shift i L a))"
  then obtain j where j: "j < L" "x = shift i L a ! j"
    using assms by (auto simp add: in_set_conv_nth length_shift)
  then have "x = a ! j \<or> x = a ! Suc j \<and> Suc j < L"
    using assms by (auto simp add: nth_shift)
  then show "x \<in> set (take L a)"
    using j(1) assms by (auto simp add: in_set_conv_nth)
qed

lemma Off_step_shift:
  "Off_step n ls i st =
     store n (ls\<lparr>len := len ls - 1\<rparr>)
       (st\<lparr>arrays := (arrays st)(arr ls := shift i (len ls) (arrays st (arr ls)))\<rparr>)"
  by (simp add: Off_step_def shift_def)

lemma Off_loop_rel:
  assumes "len ls \<le> cap ls" "len ls \<le> length (arrays st0 (arr ls))" "\<forall>i \<in> set is. i < len ls"
  shows "off_rel n ls st0 (Off_loop n p ls is st0)"
proof (rule Off_loop_induct [where P = "off_rel n ls st0"])
  show "off_rel n ls st0 st0" by (simp add: off_rel_def)
next
  fix i st
  assume i: "i \<in> set is" and P: "off_rel n ls st0 st"
    and l: "len ls \<le> length (arrays st (arr ls))"
  have il: "i < len ls" using i assms(3) by simp
  have "set (take (len ls) (shift i (len ls) (arrays st (arr ls))))
        \<subseteq> set (take (len ls) (arrays st0 (arr ls)))"
    using set_take_shift [OF il l] P by (auto simp add: off_rel_def)
  then show "off_rel n ls st0 (Off_step n ls i st)"
    using P il l
    by (simp add: off_rel_def Off_step_shift store_def length_shift)
next
  fix st assume "off_rel n ls st0 st"
  then show "len ls \<le> length (arrays st (arr ls))"
    using assms(2) by (simp add: off_rel_def)
qed (use assms in auto)

lemma Off_body_absent: "listeners (disp st) n = None \<Longrightarrow> Off_body n l st = st"
  by (simp add: Off_body_def lookup_def nil_slice_def)

lemma Off_body_rel:
  assumes "heap_ok st" "listeners (disp st) n = Some s"
  shows "off_rel n s st (Off_body n l st)"
proof -
  have ok: "slice_ok st s" using heap_okD1 [OF assms] .
  have "off_rel n s st (Off_loop n (Pointer (Some l)) s [0..<len s] st)"
    using ok by (intro Off_loop_rel) (auto simp add: slice_ok_def)
  then show ?thesis using assms(2) by (simp add: Off_body_def lookup_def)
qed

lemma Off_body_other:
  assumes "heap_ok st"
  shows "world (Off_body n l st) = world st"
    and "RWMutex (disp (Off_body n l st)) = RWMutex (disp st)"
    and "brk (Off_body n l st) = brk st"
    and "dom (listeners (disp (Off_body n l st))) = dom (listeners (disp st))"
proof -
  show "world (Off_body n l st) = world st"
    and "RWMutex (disp (Off_body n l st)) = RWMutex (disp st)"
    and "brk (Off_body n l st) = brk st"
    using Off_body_rel [OF assms, of n _ l] Off_body_absent [of st n l]
    by (cases "listeners (disp st) n"; simp add: off_rel_def)+
  show "dom (listeners (disp (Off_body n l st))) = dom (listeners (disp st))"
  proof (cases "listeners (disp st) n")
    case None
    then show ?thesis by (simp add: Off_body_absent)
  next
    case (Some s)
    have r: "off_rel n s st (Off_body n l st)" using Off_body_rel [OF assms Some] .
    have "(listeners (disp (Off_body n l st)) m = None) = (listeners (disp st) m = None)" for m
      using r Some by (cases "m = n") (auto simp add: off_rel_def)
    then show ?thesis by (auto simp add: dom_def)
  qed
qed

lemma Off_body_frame:
  assumes "heap_ok st" "m \<noteq> n"
  shows "seq (Off_body n l st) m = seq st m"
proof (cases "listeners (disp st) n")
  case None
  then show ?thesis by (simp add: Off_body_absent)
next
  case (Some s)
  have r: "off_rel n s st (Off_body n l st)" using Off_body_rel [OF assms(1) Some] .
  then have lm: "listeners (disp (Off_body n l st)) m = listeners (disp st) m"
    using assms(2) by (simp add: off_rel_def)
  show ?thesis
  proof (cases "listeners (disp st) m")
    case None
    then show ?thesis using lm by (simp add: seq_def)
  next
    case t: (Some t)
    have "arr t \<noteq> arr s" using heap_okD2 [OF assms(1) t Some assms(2)] .
    then have "arrays (Off_body n l st) (arr t) = arrays st (arr t)"
      using r by (simp add: off_rel_def)
    then show ?thesis using lm t by (simp add: seq_def cells_def)
  qed
qed

lemma Off_body_heap_ok:
  assumes "heap_ok st"
  shows "heap_ok (Off_body n l st)"
proof (cases "listeners (disp st) n")
  case None
  then show ?thesis using assms by (simp add: Off_body_absent)
next
  case (Some s)
  let ?st = "Off_body n l st"
  have r: "off_rel n s st ?st" using Off_body_rel [OF assms Some] .
  have ok: "slice_ok st s" using heap_okD1 [OF assms Some] .
  show ?thesis
  proof (cases "?st = st")
    case True
    then show ?thesis using assms by simp
  next
    case False
    then have ln: "listeners (disp ?st) n = Some (s\<lparr>len := len s - 1\<rparr>)"
      using r by (simp add: off_rel_def)
    have lm: "listeners (disp ?st) m = listeners (disp st) m" if "m \<noteq> n" for m
      using r that by (simp add: off_rel_def)
    have am: "arrays ?st (arr t) = arrays st (arr t)"
      if "m \<noteq> n" "listeners (disp st) m = Some t" for m t
      using r heap_okD2 [OF assms that(2) Some that(1)] by (simp add: off_rel_def)
    have "None \<notin> set (take (len s) (arrays ?st (arr s)))"
      using r ok by (auto simp add: off_rel_def slice_ok_def cells_def)
    then have "None \<notin> set (take (len s - 1) (arrays ?st (arr s)))"
      by (meson diff_le_self in_mono set_take_subset_set_take)
    moreover have "length (arrays ?st (arr s)) = length (arrays st (arr s))" "brk ?st = brk st"
      using r by (simp_all add: off_rel_def)
    moreover have "len s - 1 \<le> cap s" "cap s \<le> length (arrays st (arr s))" "arr s < brk st"
      using ok by (auto simp add: slice_ok_def)
    ultimately have okn: "slice_ok ?st (s\<lparr>len := len s - 1\<rparr>)"
      by (simp add: slice_ok_def cells_def)
    have okm: "slice_ok ?st t" if "m \<noteq> n" "listeners (disp st) m = Some t" for m t
      using heap_okD1 [OF assms that(2)] am [OF that] r
      by (simp add: slice_ok_def cells_def off_rel_def)
    show ?thesis
      unfolding heap_ok_def
    proof (intro conjI allI impI)
      fix m t assume mt: "listeners (disp ?st) m = Some t"
      show "slice_ok ?st t"
      proof (cases "m = n")
        case True
        then show ?thesis using mt ln okn by simp
      next
        case False
        then show ?thesis using mt lm [OF False] okm [OF False] by simp
      qed
    next
      fix m k t u
      assume mt: "listeners (disp ?st) m = Some t" and ku: "listeners (disp ?st) k = Some u"
        and mk: "m \<noteq> k"
      show "arr t \<noteq> arr u"
      proof (cases "m = n")
        case True
        then have t: "arr t = arr s" using mt ln by auto
        have kn: "k \<noteq> n" using True mk by simp
        then have "listeners (disp st) k = Some u" using ku lm by simp
        then have "arr u \<noteq> arr s" using heap_okD2 [OF assms _ Some kn] by simp
        then show ?thesis using t by simp
      next
        case False
        then have mt': "listeners (disp st) m = Some t" using mt lm by simp
        show ?thesis
        proof (cases "k = n")
          case True
          then have "arr u = arr s" using ku ln by auto
          moreover have "arr t \<noteq> arr s" using heap_okD2 [OF assms mt' Some False] .
          ultimately show ?thesis by simp
        next
          case kn: False
          then have "listeners (disp st) k = Some u" using ku lm by simp
          then show ?thesis using heap_okD2 [OF assms mt' _ mk] by simp
        qed
      qed
    qed
  qed
qed

section \<open>The lock protocol of Dispatch\<close>

lemma set_mutex_fields [simp]:
  "world (set_mutex m st) = world st"
  "arrays (set_mutex m st) = arrays st"
  "brk (set_mutex m st) = brk st"
  "listeners (disp (set_mutex m st)) = listeners (disp st)"
  "RWMutex (disp (set_mutex m st)) = m"
  by (simp_all add: set_mutex_def)

lemma OffAll_body_mutex: "OffAll_body n (set_mutex m st) = set_mutex m (OffAll_body n st)"
  by (simp add: OffAll_body_def set_mutex_def split: option.splits)

lemma OffAll_alt:
  "OffAll n st = do { st1 \<leftarrow> mutex_op Lock st; mutex_op Unlock (OffAll_body n st1) }"
  by (simp add: OffAll_def OffAll_body_def)

lemma OffAll_unlocked: "unlocked st \<Longrightarrow> OffAll n st = Some (OffAll_body n st)"
  unfolding OffAll_alt by (rule locked_section) (simp_all add: OffAll_body_mutex)

lemma Off_body_mutex: "Off_body n l (set_mutex m st) = set_mutex m (Off_body n l st)"
  by (simp add: Off_body_def Off_loop_mutex)

lemma call_body_mutex: "call_body l e (set_mutex m st) = set_mutex m (call_body l e st)"
proof (induction l arbitrary: st)
  case (Func pc body)
  show ?case by (simp add: set_mutex_def)
next
  case (ExecuteRemove n l)
  then show ?case by (simp add: Off_body_mutex)
qed

lemma mutex_of_commuting:
  assumes "\<And>m. f (set_mutex m st) = set_mutex m (f st)"
  shows "RWMutex (disp (f st)) = RWMutex (disp st)"
proof -
  have "f st = set_mutex (RWMutex (disp st)) (f st)"
    using assms [of "RWMutex (disp st)"] by simp
  then have "RWMutex (disp (f st)) = RWMutex (disp (set_mutex (RWMutex (disp st)) (f st)))"
    by simp
  then show ?thesis by (simp add: set_mutex_def)
qed

lemma call_body_keeps_mutex: "RWMutex (disp (call_body l e st)) = RWMutex (disp st)"
  by (rule mutex_of_commuting) (rule call_body_mutex)

lemma Off_body_keeps_mutex: "RWMutex (disp (Off_body n l st)) = RWMutex (disp st)"
  by (rule mutex_of_commuting) (rule Off_body_mutex)

lemma unlocked_section:
  assumes "rlocked st" and "\<And>m. f (set_mutex m st) = set_mutex m (f st)"
    and "\<And>st. unlocked st \<Longrightarrow> g st = Some (f st)"
  shows "do { st2 \<leftarrow> mutex_op RUnlock st; st3 \<leftarrow> g st2; mutex_op RLock st3 } = Some (f st)"
proof -
  let ?m = "RWMutex (disp st)"
  let ?st2 = "set_mutex (?m\<lparr>readers := 0\<rparr>) st"
  have 1: "mutex_op RUnlock st = Some ?st2"
    using assms(1) by (simp add: mutex_op_def RUnlock_def rlocked_def)
  have "unlocked ?st2"
    using assms(1) by (simp add: unlocked_def rlocked_def set_mutex_def)
  then have 2: "g ?st2 = Some (set_mutex (?m\<lparr>readers := 0\<rparr>) (f st))"
    using assms(2,3) by simp
  have 3: "?m\<lparr>readers := Suc 0\<rparr> = ?m"
    using assms(1) by (simp add: rlocked_def)
  have 4: "set_mutex ?m (f st) = f st"
    using assms(2) [of ?m] by simp
  have "mutex_op RLock (set_mutex (?m\<lparr>readers := 0\<rparr>) (f st)) = Some (f st)"
    using assms(1) by (simp add: mutex_op_def RLock_def set_mutex_def [of _ "f st"] rlocked_def 3)
       (simp add: set_mutex_def [symmetric] 4)
  then show ?thesis
    unfolding 1 by (simp add: 2)
qed

lemma call_rlocked: "rlocked st \<Longrightarrow> call l e st = Some (call_body l e st)"
proof (induction l arbitrary: st)
  case (Func pc body)
  show ?case by simp
next
  case (ExecuteRemove n l)
  have r: "rlocked (call_body l e st)"
    using ExecuteRemove.prems by (simp add: rlocked_def call_body_keeps_mutex)
  have "do { st2 \<leftarrow> mutex_op RUnlock (call_body l e st);
             st3 \<leftarrow> Off n (ExecuteRemove n l) st2;
             mutex_op RLock st3 }
        = Some (Off_body n (ExecuteRemove n l) (call_body l e st))"
    using r by (rule unlocked_section) (simp_all add: Off_body_mutex Off_unlocked)
  then show ?case
    using ExecuteRemove.IH [OF ExecuteRemove.prems] by simp
qed

lemma dispatch_body_mutex:
  "dispatch_body s e is (set_mutex m st) = map_option (set_mutex m) (dispatch_body s e is st)"
proof (induction "is" arbitrary: st)
  case Nil
  show ?case by simp
next
  case (Cons i "is")
  have a: "arrays (set_mutex m st) = arrays st" by (simp add: set_mutex_def)
  show ?case
    by (simp add: a call_body_mutex Cons.IH split: option.splits)
qed

lemma dispatch_body_keeps_mutex:
  "dispatch_body s e is st = Some st' \<Longrightarrow> RWMutex (disp st') = RWMutex (disp st)"
  by (induction "is" arbitrary: st) (auto simp add: call_body_keeps_mutex split: option.splits)

lemma dispatch_loop_rlocked:
  "rlocked st \<Longrightarrow> dispatch_loop s e is st = dispatch_body s e is st"
proof (induction "is" arbitrary: st)
  case Nil
  show ?case by simp
next
  case (Cons i "is")
  have "rlocked (call_body l e st)" for l
    using Cons.prems by (simp add: rlocked_def call_body_keeps_mutex)
  then show ?case
    using Cons.prems by (simp add: call_rlocked Cons.IH split: option.splits)
qed

lemma Dispatch_unlocked:
  assumes "unlocked st"
  shows "Dispatch e st =
     map_option (Pair e)
       (dispatch_body (lookup st (Name e (evs (world st)))) e
          [0..<len (lookup st (Name e (evs (world st))))] st)"
proof -
  let ?m = "RWMutex (disp st)"
  let ?st1 = "set_mutex (?m\<lparr>readers := Suc 0\<rparr>) st"
  let ?s = "lookup st (Name e (evs (world st)))"
  have 1: "mutex_op RLock st = Some ?st1"
    using assms by (simp add: mutex_op_def RLock_def unlocked_def)
  have r: "rlocked ?st1"
    using assms by (simp add: rlocked_def unlocked_def set_mutex_def)
  have w: "world ?st1 = world st" by (simp add: set_mutex_def)
  have 2: "dispatch e ?st1 =
        map_option (\<lambda>st'. (e, set_mutex (?m\<lparr>readers := Suc 0\<rparr>) st')) (dispatch_body ?s e [0..<len ?s] st)"
    by (simp add: dispatch_def dispatch_loop_rlocked [OF r] dispatch_body_mutex
          map_option_case split: option.splits)
  have 3: "?m\<lparr>readers := 0\<rparr> = ?m"
    using assms by (simp add: unlocked_def)
  have 4: "mutex_op RUnlock (set_mutex (?m\<lparr>readers := Suc 0\<rparr>) st') = Some st'"
    if "dispatch_body ?s e [0..<len ?s] st = Some st'" for st'
  proof -
    have "RWMutex (disp st') = ?m" using dispatch_body_keeps_mutex [OF that] .
    then have "set_mutex ?m st' = st'" by (metis set_mutex_same)
    then show ?thesis
      by (simp add: mutex_op_def RUnlock_def set_mutex_def [of "?m\<lparr>readers := Suc 0\<rparr>"] 3)
         (simp add: set_mutex_def [symmetric])
  qed
  show ?thesis
    unfolding Dispatch_def 1
    by (cases "dispatch_body ?s e [0..<len ?s] st") (simp_all add: 2 4)
qed

section \<open>Well-formed states are kept\<close>

lemma heap_ok_set_mutex [simp]: "heap_ok (set_mutex m st) = heap_ok st"
  by (simp add: heap_ok_def slice_ok_def cells_def)

lemma wf_fresh: "wf (fresh w)"
  by (simp add: wf_def unlocked_def heap_ok_def fresh_def NewDispatcher_def)

lemma unlocked_keeps:
  "RWMutex (disp st') = RWMutex (disp st) \<Longrightarrow> unlocked st \<Longrightarrow> unlocked st'"
  by (simp add: unlocked_def)

lemma wf_on_body: "wf st \<Longrightarrow> wf (on_body n l st)"
  by (simp add: wf_def on_body_heap_ok unlocked_def)

lemma wf_Off_body: "wf st \<Longrightarrow> wf (Off_body n l st)"
  by (simp add: wf_def Off_body_heap_ok unlocked_def Off_body_keeps_mutex)

lemma OffAll_body_heap_ok: "heap_ok st \<Longrightarrow> heap_ok (OffAll_body n st)"
  by (auto simp add: heap_ok_def OffAll_body_def slice_ok_def cells_def split: option.splits if_splits)

lemma wf_OffAll_body: "wf st \<Longrightarrow> wf (OffAll_body n st)"
  by (simp add: wf_def OffAll_body_heap_ok)
     (simp add: unlocked_def OffAll_body_def split: option.splits)

lemma cells_disp_update [simp]: "cells (st\<lparr>disp := d\<rparr>) = cells st"
  by (rule ext) (simp add: cells_def)

lemma OffAll_body_seq:
  "seq (OffAll_body n st) m = (if m = n then None else seq st m)"
  by (simp add: OffAll_body_def seq_def cells_def split: option.splits)

lemma OffAll_body_world [simp]: "world (OffAll_body n st) = world st"
  by (simp add: OffAll_body_def split: option.splits)

lemma HasListeners_seq:
  assumes "heap_ok st"
  shows "HasListeners n st \<longleftrightarrow> (\<exists>xs. seq st n = Some xs \<and> xs \<noteq> [])"
proof (cases "listeners (disp st) n")
  case None
  then show ?thesis by (simp add: HasListeners_def seq_def)
next
  case (Some s)
  have "len s \<le> length (arrays st (arr s))"
    using heap_okD1 [OF assms Some] by (simp add: slice_ok_def)
  then have "length (cells st s) = len s" by (simp add: cells_def)
  then have "cells st s \<noteq> [] \<longleftrightarrow> len s \<noteq> 0" by (metis length_0_conv)
  then show ?thesis using Some by (simp add: HasListeners_def seq_def)
qed

lemma HasListeners_entries:
  "heap_ok st \<Longrightarrow> HasListeners n st \<longleftrightarrow> entries st n \<noteq> []"
  by (auto simp add: HasListeners_seq entries_def split: option.splits)

lemma entries_on_body:
  "heap_ok st \<Longrightarrow> entries (on_body n l st) m = entries st m @ (if m = n then [Some l] else [])"
  using on_body_seq [of st n l] on_body_frame [of st m n l]
  by (auto simp add: entries_def)

lemma On_loop_wf:
  assumes "wf st"
  shows "\<exists>st'. On_loop names l st = Some st' \<and> wf st' \<and> world st' = world st
           \<and> (\<forall>m. entries st' m = entries st m @ replicate (count_list names m) (Some l))
           \<and> dom (listeners (disp st')) = dom (listeners (disp st)) \<union> set names"
  using assms
proof (induction names arbitrary: st)
  case Nil
  then show ?case by simp
next
  case (Cons nm names)
  let ?st1 = "on_body nm l st"
  have 1: "on nm l st = Some ?st1" using Cons.prems by (simp add: on_unlocked wf_def)
  have w1: "wf ?st1" using Cons.prems by (rule wf_on_body)
  obtain st' where st': "On_loop names l ?st1 = Some st'" "wf st'" "world st' = world ?st1"
     "\<forall>m. entries st' m = entries ?st1 m @ replicate (count_list names m) (Some l)"
     "dom (listeners (disp st')) = dom (listeners (disp ?st1)) \<union> set names"
    using Cons.IH [OF w1] by blast
  have h: "heap_ok st" using Cons.prems by (simp add: wf_def)
  have "entries st' m = entries st m @ replicate (count_list (nm # names) m) (Some l)" for m
    using st'(4) by (simp add: entries_on_body [OF h] replicate_app_Cons_same)
  then show ?case
    using 1 st' by auto
qed

section \<open>Splitting names\<close>

lemma Split_nonempty [simp]: "Split s \<noteq> []"
  by (induction s) simp_all

lemma Split_token: "CHR '' '' \<notin> set w \<Longrightarrow> Split w = [w]"
  by (induction w) auto

lemma Split_token_space: "CHR '' '' \<notin> set w \<Longrightarrow> Split (w @ CHR '' '' # s) = w # Split s"
  by (induction w) auto

lemma Split_no_space: "w \<in> set (Split s) \<Longrightarrow> CHR '' '' \<notin> set w"
proof (induction s arbitrary: w)
  case Nil
  then show ?case by simp
next
  case (Cons c s)
  then show ?case
    by (cases "Split s") (auto split: if_splits)
qed

lemma getNames_Nil [simp]: "getNames [] = []"
  by (simp add: getNames_def)

lemma getNames_space [simp]: "getNames (CHR '' '' # s) = getNames s"
  by (simp add: getNames_def)

lemma getNames_token: "CHR '' '' \<notin> set w \<Longrightarrow> w \<noteq> [] \<Longrightarrow> getNames w = [w]"
  by (simp add: getNames_def Split_token)

lemma getNames_token_space:
  "CHR '' '' \<notin> set w \<Longrightarrow> w \<noteq> [] \<Longrightarrow> getNames (w @ CHR '' '' # s) = w # getNames s"
  by (simp add: getNames_def Split_token_space)

lemma getNames_tokens: "w \<in> set (getNames s) \<Longrightarrow> w \<noteq> [] \<and> CHR '' '' \<notin> set w"
  by (auto simp add: getNames_def dest: Split_no_space)

lemma getNames_single: "getNames n = [n] \<longleftrightarrow> n \<noteq> [] \<and> CHR '' '' \<notin> set n"
proof
  assume "getNames n = [n]"
  then have "n \<in> set (getNames n)" by simp
  then show "n \<noteq> [] \<and> CHR '' '' \<notin> set n" by (rule getNames_tokens)
next
  assume "n \<noteq> [] \<and> CHR '' '' \<notin> set n"
  then show "getNames n = [n]" by (simp add: getNames_token)
qed

section \<open>Dispatch to functions of the caller\<close>

lemma map_nth_take: "n \<le> length a \<Longrightarrow> map ((!) a) [0..<n] = take n a"
  by (simp add: list_eq_iff_nth_eq)

lemma dispatch_body_Func:
  "map ((!) (arrays st (arr s))) is = map (\<lambda>(pc, b). Some (Func pc b)) fs \<Longrightarrow>
   dispatch_body s e is st = Some (st\<lparr>world := foldl (\<lambda>w (pc, b). b e w) (world st) fs\<rparr>)"
proof (induction "is" arbitrary: fs st)
  case Nil
  then show ?case by simp
next
  case (Cons i "is")
  then obtain pc b fs' where fs: "fs = (pc, b) # fs'"
    "arrays st (arr s) ! i = Some (Func pc b)"
    "map ((!) (arrays st (arr s))) is = map (\<lambda>(pc, b). Some (Func pc b)) fs'"
    by (cases fs) auto
  have "dispatch_body s e is (st\<lparr>world := b e (world st)\<rparr>)
        = Some (st\<lparr>world := b e (world st)\<rparr>
                  \<lparr>world := foldl (\<lambda>w (pc, b). b e w) (world (st\<lparr>world := b e (world st)\<rparr>)) fs'\<rparr>)"
    by (rule Cons.IH) (simp add: fs(3))
  then show ?case by (simp add: fs)
qed

lemma lookup_cells:
  "heap_ok st \<Longrightarrow> map ((!) (arrays st (arr (lookup st n)))) [0..<len (lookup st n)] = entries st n"
proof (cases "listeners (disp st) n")
  case None
  then show ?thesis by (simp add: lookup_def nil_slice_def entries_def seq_def)
next
  case (Some s)
  assume "heap_ok st"
  then have "len s \<le> length (arrays st (arr s))"
    using heap_okD1 [OF _ Some] by (simp add: slice_ok_def)
  then show ?thesis using Some
    by (simp add: lookup_def entries_def seq_def cells_def map_nth_take)
qed

lemma Dispatch_persistent:
  assumes "wf st" "entries st (Name e (evs (world st))) = map (\<lambda>(pc, b). Some (Func pc b)) fs"
  shows "Dispatch e st = Some (e, st\<lparr>world := foldl (\<lambda>w (pc, b). b e w) (world st) fs\<rparr>)"
proof -
  have "unlocked st" "heap_ok st" using assms(1) by (simp_all add: wf_def)
  then show ?thesis
    using dispatch_body_Func [of st "lookup st (Name e (evs (world st)))" _ fs e]
    by (simp add: Dispatch_unlocked lookup_cells assms(2))
qed

section \<open>Off with one match, and with none\<close>

lemma take_shift:
  assumes "i < L" "L \<le> length a"
  shows "take (L - 1) (shift i L a) = take i a @ drop (Suc i) (take L a)"
proof -
  have "length (take i a @ drop (Suc i) (take L a)) = L - 1"
    using assms by simp
  then show ?thesis
    unfolding shift_def by (metis append.assoc append_eq_conv_conj)
qed

lemma Off_body_one_match:
  assumes h: "heap_ok st" and sq: "seq st n = Some (xs @ c # ys)"
    and c: "Pointer c = Pointer (Some l)"
    and others: "\<forall>x \<in> set xs \<union> set ys. Pointer x \<noteq> Pointer (Some l)"
  shows "seq (Off_body n l st) n = Some (xs @ ys)"
proof -
  let ?p = "Pointer (Some l)"
  obtain s where s: "listeners (disp st) n = Some s" "cells st s = xs @ c # ys"
    using sq by (auto simp add: seq_def)
  let ?a = "arrays st (arr s)"
  let ?k = "length xs"
  let ?L = "len s"
  have ok: "slice_ok st s" using heap_okD1 [OF h s(1)] .
  then have La: "?L \<le> length ?a" and Lc: "?L \<le> cap s" by (simp_all add: slice_ok_def)
  have tk: "take ?L ?a = xs @ c # ys" using s(2) by (simp add: cells_def)
  then have L: "?L = ?k + 1 + length ys"
    using La by (metis add.assoc length_Cons length_append length_take min.absorb2 plus_1_eq_Suc)
  have kL: "?k < ?L" using L by simp
  have nth: "?a ! i = (xs @ c # ys) ! i" if "i < ?L" for i
    using that tk by (metis nth_take)
  have pre: "Off_loop n ?p s [0..<?k] st = st"
  proof (rule Off_loop_nomatch, rule ballI)
    fix i assume "i \<in> set [0..<?k]"
    then have i: "i < ?k" by simp
    then have "?a ! i = xs ! i" using nth [of i] kL by (simp add: nth_append)
    then show "Pointer (?a ! i) \<noteq> ?p" using others i by simp
  qed
  have ck: "Pointer (?a ! ?k) = ?p" using nth [OF kL] c by simp
  let ?st1 = "Off_step n s ?k st"
  have step: "Off_loop n ?p s (?k # [Suc ?k..<?L]) st = Off_loop n ?p s [Suc ?k..<?L] ?st1"
    using Off_loop_match [OF ck kL Lc La] .
  have a1: "arrays ?st1 (arr s) = shift ?k ?L ?a"
    by (simp add: Off_step_shift store_def)
  have post: "Off_loop n ?p s [Suc ?k..<?L] ?st1 = ?st1"
  proof (rule Off_loop_nomatch, rule ballI)
    fix j assume "j \<in> set [Suc ?k..<?L]"
    then have j: "?k < j" "j < ?L" by simp_all
    have "shift ?k ?L ?a ! j = (if j < ?L - 1 then ?a ! Suc j else ?a ! j)"
      using j La by (simp add: nth_shift [OF kL La])
    moreover have "Pointer (?a ! m) \<noteq> ?p" if "?k < m" "m < ?L" for m
    proof -
      have "?a ! m = ys ! (m - Suc ?k)" using nth [OF that(2)] that(1)
        by (simp add: nth_append)
      moreover have "m - Suc ?k < length ys" using that L by simp
      ultimately show ?thesis using others by simp
    qed
    ultimately show "Pointer (arrays ?st1 (arr s) ! j) \<noteq> ?p"
      using j a1 by (cases "j < ?L - 1") simp_all
  qed
  have split: "[0..<?L] = [0..<?k] @ ?k # [Suc ?k..<?L]"
    using kL by (metis le_add1 le_add_same_cancel1 less_imp_add_positive upt_add_eq_append upt_conv_Cons)
  have "Off_loop n ?p s [0..<?L] st
        = Off_loop n ?p s (?k # [Suc ?k..<?L]) (Off_loop n ?p s [0..<?k] st)"
    by (subst split) (simp only: Off_loop_append)
  then have "Off_loop n ?p s [0..<?L] st = ?st1"
    by (simp only: pre step post)
  then have "Off_body n l st = ?st1"
    using s(1) by (simp add: Off_body_def lookup_def)
  moreover have "take ?k ?a = xs"
    using tk kL by (metis append_eq_conv_conj take_take min.absorb1 less_imp_le)
  then have "seq ?st1 n = Some (xs @ ys)"
    using take_shift [OF kL La] tk
    by (simp add: seq_def Off_step_shift store_def cells_def)
  ultimately show ?thesis by simp
qed

lemma Off_body_no_match:
  assumes "heap_ok st" "\<forall>x \<in> set (entries st n). Pointer x \<noteq> Pointer (Some l)"
  shows "Off_body n l st = st"
proof (cases "listeners (disp st) n")
  case None
  then show ?thesis by (rule Off_body_absent)
next
  case (Some s)
  have La: "len s \<le> length (arrays st (arr s))"
    using heap_okD1 [OF assms(1) Some] by (simp add: slice_ok_def)
  have "Off_loop n (Pointer (Some l)) s [0..<len s] st = st"
  proof (rule Off_loop_nomatch, rule ballI)
    fix i assume "i \<in> set [0..<len s]"
    then have i: "i < len s" by simp
    then have "arrays st (arr s) ! i \<in> set (entries st n)"
      using Some La by (auto simp add: entries_def seq_def cells_def in_set_conv_nth)
    then show "Pointer (arrays st (arr s) ! i) \<noteq> Pointer (Some l)"
      using assms(2) by simp
  qed
  then show ?thesis using Some by (simp add: Off_body_def lookup_def)
qed

lemma heap_ok_world [simp]: "heap_ok (st\<lparr>world := w\<rparr>) = heap_ok st"
  by (simp add: heap_ok_def slice_ok_def cells_def)

lemma wf_world [simp]: "wf (st\<lparr>world := w\<rparr>) = wf st"
  by (simp add: wf_def unlocked_def)

lemma seq_world [simp]: "seq (st\<lparr>world := w\<rparr>) n = seq st n"
  by (simp add: seq_def cells_def cong: map_option_cong)

lemma entries_world [simp]: "entries (st\<lparr>world := w\<rparr>) n = entries st n"
  by (simp add: entries_def)

lemma HasListeners_world [simp]: "HasListeners n (st\<lparr>world := w\<rparr>) = HasListeners n st"
  by (simp add: HasListeners_def)

section \<open>Registration and removal\<close>

lemma seq_eq_entries:
  "seq st m = (if m \<in> dom (listeners (disp st)) then Some (entries st m) else None)"
  by (auto simp add: seq_def entries_def)

lemma On_unchanged_elsewhere:
  assumes "wf st" "m \<notin> set (getNames n)"
  shows "\<exists>st'. On n l st = Some st' \<and> seq st' m = seq st m"
proof -
  obtain st' where st': "On_loop (getNames n) l st = Some st'"
    "\<forall>m. entries st' m = entries st m @ replicate (count_list (getNames n) m) (Some l)"
    "dom (listeners (disp st')) = dom (listeners (disp st)) \<union> set (getNames n)"
    using On_loop_wf [OF assms(1)] by blast
  have "count_list (getNames n) m = 0" using assms(2) by (simp add: count_list_0_iff)
  then have "entries st' m = entries st m" using st'(2) by simp
  moreover have "m \<in> dom (listeners (disp st')) \<longleftrightarrow> m \<in> dom (listeners (disp st))"
    using st'(3) assms(2) by simp
  ultimately have "seq st' m = seq st m" by (simp add: seq_eq_entries)
  then show ?thesis using st'(1) by (simp add: On_def)
qed

text \<open>
  C4, as amended. On a well-formed dispatcher \<open>On(names, l)\<close> always returns. It takes
  \<open>names\<close> as a list of names separated by the space character (and only by it: a tab
  or a newline is part of a name), ignores empty tokens, and appends \<open>l\<close> to the end of the
  sequence of each name, once for each time the name stands in the list; every other
  sequence, and the world, stay as they were. When no token is left after splitting,
  the state is unchanged. The tokens are not empty and hold no space; a string that is
  not empty and holds no space is its own single token, so registering under it always
  succeeds.
\<close>

theorem On_appends:
  assumes "wf st"
  shows "(\<exists>st'. On names l st = Some st' \<and> wf st' \<and> world st' = world st
           \<and> (\<forall>m. entries st' m = entries st m @ replicate (count_list (getNames names) m) (Some l))
           \<and> dom (listeners (disp st')) = dom (listeners (disp st)) \<union> set (getNames names)
           \<and> (getNames names = [] \<longrightarrow> st' = st))
         \<and> (\<forall>w \<in> set (getNames names). w \<noteq> [] \<and> CHR '' '' \<notin> set w)
         \<and> getNames [] = [] \<and> getNames (CHR '' '' # s) = getNames s
         \<and> (w \<noteq> [] \<and> CHR '' '' \<notin> set w \<longrightarrow>
              getNames w = [w] \<and> getNames (w @ CHR '' '' # s) = w # getNames s)"
proof -
  obtain st' where st': "On_loop (getNames names) l st = Some st'" "wf st'" "world st' = world st"
    "\<forall>m. entries st' m = entries st m @ replicate (count_list (getNames names) m) (Some l)"
    "dom (listeners (disp st')) = dom (listeners (disp st)) \<union> set (getNames names)"
    using On_loop_wf [OF assms] by blast
  have "getNames names = [] \<longrightarrow> st' = st" using st'(1) by auto
  then have "\<exists>st'. On names l st = Some st' \<and> wf st' \<and> world st' = world st
           \<and> (\<forall>m. entries st' m = entries st m @ replicate (count_list (getNames names) m) (Some l))
           \<and> dom (listeners (disp st')) = dom (listeners (disp st)) \<union> set (getNames names)
           \<and> (getNames names = [] \<longrightarrow> st' = st)"
    using st' by (simp add: On_def)
  moreover have "\<forall>w \<in> set (getNames names). w \<noteq> [] \<and> CHR '' '' \<notin> set w"
    using getNames_tokens by blast
  moreover have "w \<noteq> [] \<and> CHR '' '' \<notin> set w \<longrightarrow>
              getNames w = [w] \<and> getNames (w @ CHR '' '' # s) = w # getNames s"
    by (simp add: getNames_token getNames_token_space)
  ultimately show ?thesis by simp
qed

text \<open>
  C6. On a well-formed dispatcher \<open>OffAll(n)\<close> returns, erases the key \<open>n\<close> from the map and
  changes nothing else; when \<open>n\<close> is not a key the state is unchanged. Afterwards
  \<open>HasListeners(n)\<close> is false and a \<open>Dispatch\<close> of an event named \<open>n\<close>, in whatever world,
  returns the event and changes nothing: no listener is called.
\<close>

theorem OffAll_removes:
  assumes "wf st"
  shows "\<exists>st'. OffAll n st = Some st' \<and> wf st'
           \<and> listeners (disp st') = (listeners (disp st))(n := None)
           \<and> arrays st' = arrays st \<and> world st' = world st
           \<and> (n \<notin> dom (listeners (disp st)) \<longrightarrow> st' = st)
           \<and> \<not> HasListeners n st'
           \<and> (\<forall>e w. Name e (evs w) = n \<longrightarrow>
                 Dispatch e (st'\<lparr>world := w\<rparr>) = Some (e, st'\<lparr>world := w\<rparr>))"
proof -
  let ?st = "OffAll_body n st"
  have 1: "OffAll n st = Some ?st" using assms by (simp add: OffAll_unlocked wf_def)
  have 2: "wf ?st" using assms by (rule wf_OffAll_body)
  have 3: "listeners (disp ?st) = (listeners (disp st))(n := None)"
    by (auto simp add: OffAll_body_def split: option.splits)
  have 4: "arrays ?st = arrays st" "world ?st = world st"
    by (simp_all add: OffAll_body_def split: option.splits)
  have 5: "n \<notin> dom (listeners (disp st)) \<longrightarrow> ?st = st"
    by (auto simp add: OffAll_body_def split: option.splits)
  have 6: "\<not> HasListeners n ?st" by (simp add: HasListeners_def 3)
  have 7: "Dispatch e (?st\<lparr>world := w\<rparr>) = Some (e, ?st\<lparr>world := w\<rparr>)"
    if "Name e (evs w) = n" for e w
  proof -
    have "entries (?st\<lparr>world := w\<rparr>) (Name e (evs (world (?st\<lparr>world := w\<rparr>))))
          = map (\<lambda>(pc, b). Some (Func pc b)) []"
      using that by (simp add: entries_def OffAll_body_seq)
    then show ?thesis
      using Dispatch_persistent [of "?st\<lparr>world := w\<rparr>" e "[]"] 2 by simp
  qed
  show ?thesis using 1 2 3 4 5 6 7 by blast
qed

text \<open>
  C10. On a well-formed dispatcher the sequence stored under a name \<open>m\<close> is the same before
  and after \<open>On(n, l)\<close> when \<open>m\<close> is not one of the tokens of \<open>n\<close>, and before and after
  \<open>Off(n, l)\<close> and \<open>OffAll(n)\<close> when \<open>m\<close> is not \<open>n\<close>. When exactly one entry under \<open>n\<close> has
  the identity of \<open>l\<close>, \<open>Off(n, l)\<close> removes it and keeps the others in their order.
  (\<open>HasListeners\<close> only reads: in this embedding it is a function from the state to a
  truth value and returns no state.)
\<close>

theorem registration_frame:
  assumes "wf st"
  shows "(m \<notin> set (getNames n) \<longrightarrow> (\<exists>st'. On n l st = Some st' \<and> seq st' m = seq st m))
       \<and> (m \<noteq> n \<longrightarrow> (\<exists>st'. Off n l st = Some st' \<and> seq st' m = seq st m))
       \<and> (m \<noteq> n \<longrightarrow> (\<exists>st'. OffAll n st = Some st' \<and> seq st' m = seq st m))
       \<and> (seq st n = Some (xs @ c # ys) \<and> Pointer c = Pointer (Some l)
            \<and> (\<forall>x \<in> set xs \<union> set ys. Pointer x \<noteq> Pointer (Some l)) \<longrightarrow>
            (\<exists>st'. Off n l st = Some st' \<and> seq st' n = Some (xs @ ys)))"
proof -
  have u: "unlocked st" and h: "heap_ok st" using assms by (simp_all add: wf_def)
  have "m \<notin> set (getNames n) \<longrightarrow> (\<exists>st'. On n l st = Some st' \<and> seq st' m = seq st m)"
    using On_unchanged_elsewhere [OF assms] by blast
  moreover have "m \<noteq> n \<longrightarrow> (\<exists>st'. Off n l st = Some st' \<and> seq st' m = seq st m)"
    using Off_unlocked [OF u] Off_body_frame [OF h] by simp
  moreover have "m \<noteq> n \<longrightarrow> (\<exists>st'. OffAll n st = Some st' \<and> seq st' m = seq st m)"
    using OffAll_unlocked [OF u] by (simp add: OffAll_body_seq)
  moreover have "seq st n = Some (xs @ c # ys) \<and> Pointer c = Pointer (Some l)
            \<and> (\<forall>x \<in> set xs \<union> set ys. Pointer x \<noteq> Pointer (Some l)) \<longrightarrow>
            (\<exists>st'. Off n l st = Some st' \<and> seq st' n = Some (xs @ ys))"
    using Off_unlocked [OF u] Off_body_one_match [OF h] by simp
  ultimately show ?thesis by blast
qed

lemma On_single:
  assumes "wf st" "n \<noteq> []" "CHR '' '' \<notin> set n"
  shows "On n l st = Some (on_body n l st)"
  using assms by (simp add: On_def getNames_token on_unlocked wf_def)

lemma Once_single:
  assumes "wf st" "n \<noteq> []" "CHR '' '' \<notin> set n"
  shows "Once n l st = Some (on_body n (ExecuteRemove n l) st)"
  using assms by (simp add: Once_def getNames_token on_unlocked wf_def executeRemove_def)

lemma not_HasListeners_entries: "heap_ok st \<Longrightarrow> \<not> HasListeners n st \<Longrightarrow> entries st n = []"
  by (simp add: HasListeners_entries)

lemma len_lookup: "heap_ok st \<Longrightarrow> len (lookup st n) = length (entries st n)"
  using lookup_cells [of st n] by (metis length_map length_upt minus_nat.diff_0)

lemma Dispatch_single:
  assumes "wf st" "entries st (Name e (evs (world st))) = [Some l]"
  shows "Dispatch e st = Some (e, call_body l e st)"
proof -
  let ?s = "lookup st (Name e (evs (world st)))"
  have u: "unlocked st" and h: "heap_ok st" using assms(1) by (simp_all add: wf_def)
  have 1: "len ?s = 1" using len_lookup [OF h] assms(2) by simp
  have "map ((!) (arrays st (arr ?s))) [0..<len ?s] = [Some l]"
    using lookup_cells [OF h] assms(2) by simp
  then have 2: "arrays st (arr ?s) ! 0 = Some l" by (simp add: 1)
  show ?thesis
    by (simp add: Dispatch_unlocked [OF u] 1 2)
qed

lemma Dispatch_none:
  assumes "wf st" "entries st (Name e (evs (world st))) = []"
  shows "Dispatch e st = Some (e, st)"
  using Dispatch_persistent [OF assms(1), of e "[]"] assms(2) by simp

text \<open>
  \<open>Once\<close> with one name. Let \<open>n\<close> be one name (not empty, no space) that has no listener on
  a well-formed dispatcher, and let \<open>l\<close> be a function of the caller. \<open>Once(n, l)\<close> registers
  one wrapper under \<open>n\<close> and nothing else, so \<open>HasListeners(n)\<close> is true. A \<open>Dispatch\<close> of an
  event named \<open>n\<close>, in whatever world the caller has reached by then, runs \<open>l\<close> once on that
  event, removes the wrapper and leaves \<open>HasListeners(n)\<close> false. Every later \<open>Dispatch\<close>
  of an event named \<open>n\<close> returns the event and changes nothing, so however many follow,
  \<open>l\<close> has run exactly once.
\<close>

theorem Once_single_name:
  assumes "wf st" "n \<noteq> []" "CHR '' '' \<notin> set n" "\<not> HasListeners n st"
  shows "\<exists>st1. Once n (Func pc body) st = Some st1 \<and> wf st1 \<and> world st1 = world st
           \<and> seq st1 n = Some [Some (ExecuteRemove n (Func pc body))] \<and> HasListeners n st1
           \<and> (\<forall>e w. Name e (evs w) = n \<longrightarrow>
               (\<exists>st2. Dispatch e (st1\<lparr>world := w\<rparr>) = Some (e, st2) \<and> wf st2
                   \<and> world st2 = body e w \<and> \<not> HasListeners n st2
                   \<and> (\<forall>e' w'. Name e' (evs w') = n \<longrightarrow>
                        Dispatch e' (st2\<lparr>world := w'\<rparr>) = Some (e', st2\<lparr>world := w'\<rparr>))))"
proof -
  let ?wr = "ExecuteRemove n (Func pc body)"
  let ?st1 = "on_body n ?wr st"
  have h: "heap_ok st" using assms(1) by (simp add: wf_def)
  have 1: "Once n (Func pc body) st = Some ?st1" using assms(1-3) by (rule Once_single)
  have w1: "wf ?st1" using assms(1) by (rule wf_on_body)
  then have h1: "heap_ok ?st1" by (simp add: wf_def)
  have s1: "seq ?st1 n = Some [Some ?wr]"
    using on_body_seq [OF h, of n ?wr] not_HasListeners_entries [OF h assms(4)] by simp
  then have e1: "entries ?st1 n = [Some ?wr]" by (simp add: entries_def)
  have H1: "HasListeners n ?st1" using e1 by (simp add: HasListeners_entries [OF h1])
  have D: "\<exists>st2. Dispatch e (?st1\<lparr>world := w\<rparr>) = Some (e, st2) \<and> wf st2
                   \<and> world st2 = body e w \<and> \<not> HasListeners n st2
                   \<and> (\<forall>e' w'. Name e' (evs w') = n \<longrightarrow>
                        Dispatch e' (st2\<lparr>world := w'\<rparr>) = Some (e', st2\<lparr>world := w'\<rparr>))"
    if nm: "Name e (evs w) = n" for e w
  proof -
    let ?stb = "?st1\<lparr>world := body e w\<rparr>"
    let ?st2 = "Off_body n ?wr ?stb"
    have "Dispatch e (?st1\<lparr>world := w\<rparr>) = Some (e, call_body ?wr e (?st1\<lparr>world := w\<rparr>))"
      by (rule Dispatch_single) (simp_all add: w1 nm e1)
    then have d: "Dispatch e (?st1\<lparr>world := w\<rparr>) = Some (e, ?st2)" by simp
    have wb: "wf ?stb" using w1 by simp
    then have hb: "heap_ok ?stb" by (simp add: wf_def)
    have w2: "wf ?st2" using wb by (rule wf_Off_body)
    then have h2: "heap_ok ?st2" by (simp add: wf_def)
    have "seq ?st2 n = Some ([] @ [])"
      by (rule Off_body_one_match [OF hb, where c = "Some ?wr"]) (simp_all add: s1)
    then have e2: "entries ?st2 n = []" by (simp add: entries_def)
    then have H2: "\<not> HasListeners n ?st2" by (simp add: HasListeners_entries [OF h2])
    have wd: "world ?st2 = body e w" using Off_body_other(1) [OF hb, of n ?wr] by simp
    have "Dispatch e' (?st2\<lparr>world := w'\<rparr>) = Some (e', ?st2\<lparr>world := w'\<rparr>)"
      if "Name e' (evs w') = n" for e' w'
      by (rule Dispatch_none) (simp_all add: w2 that e2)
    then show ?thesis using d w2 wd H2 by blast
  qed
  show ?thesis using 1 w1 s1 H1 D by (intro exI [of _ ?st1]) simp
qed

text \<open>
  C5, as amended. \<open>HasListeners(n)\<close> is true exactly when \<open>n\<close> is a key of the map and the
  header stored under it has a length other than 0, which on a well-formed dispatcher
  is to say that the sequence under \<open>n\<close> is there and not empty: a missing key and an
  empty sequence both give false. For one name \<open>n\<close> (not empty, no space), \<open>HasListeners(n)\<close>
  is true after \<open>On(n, l)\<close>, and when \<open>n\<close> had no listener before that \<open>On\<close>, it is false again
  after \<open>Off(n, l)\<close>. For every string \<open>n\<close>: when the sequence under \<open>n\<close> is exactly one entry
  and that entry has the identity of \<open>l\<close>, \<open>Off(n, l)\<close> leaves the sequence empty and
  \<open>HasListeners(n)\<close> false. (Nothing is said here of a listener registered more than
  once.)
\<close>

theorem HasListeners_iff:
  "(HasListeners n st \<longleftrightarrow> (\<exists>s. listeners (disp st) n = Some s \<and> len s \<noteq> 0))
   \<and> (wf st \<longrightarrow> (HasListeners n st \<longleftrightarrow> (\<exists>xs. seq st n = Some xs \<and> xs \<noteq> [])))
   \<and> (wf st \<and> n \<noteq> [] \<and> CHR '' '' \<notin> set n \<longrightarrow>
         (\<exists>st'. On n l st = Some st' \<and> HasListeners n st'))
   \<and> (wf st \<and> n \<noteq> [] \<and> CHR '' '' \<notin> set n \<and> \<not> HasListeners n st \<longrightarrow>
         (\<exists>st' st''. On n l st = Some st' \<and> Off n l st' = Some st'' \<and> \<not> HasListeners n st''))
   \<and> (wf st \<and> seq st n = Some [c] \<and> Pointer c = Pointer (Some l) \<longrightarrow>
         (\<exists>st'. Off n l st = Some st' \<and> seq st' n = Some [] \<and> \<not> HasListeners n st'))"
proof -
  have A: "HasListeners n st \<longleftrightarrow> (\<exists>s. listeners (disp st) n = Some s \<and> len s \<noteq> 0)"
    by (simp add: HasListeners_def split: option.splits)
  have B: "wf st \<longrightarrow> (HasListeners n st \<longleftrightarrow> (\<exists>xs. seq st n = Some xs \<and> xs \<noteq> []))"
    using HasListeners_seq [of st n] by (simp add: wf_def)
  have C: "\<exists>st'. On n l st = Some st' \<and> HasListeners n st'"
    if "wf st" "n \<noteq> []" "CHR '' '' \<notin> set n"
  proof -
    have h: "heap_ok st" using that(1) by (simp add: wf_def)
    have "heap_ok (on_body n l st)" using h by (rule on_body_heap_ok)
    then have "HasListeners n (on_body n l st)"
      using on_body_seq [OF h, of n l] by (simp add: HasListeners_seq)
    then show ?thesis using On_single [OF that] by simp
  qed
  have D: "\<exists>st' st''. On n l st = Some st' \<and> Off n l st' = Some st'' \<and> \<not> HasListeners n st''"
    if "wf st" "n \<noteq> []" "CHR '' '' \<notin> set n" "\<not> HasListeners n st"
  proof -
    let ?st1 = "on_body n l st"
    let ?st2 = "Off_body n l ?st1"
    have h: "heap_ok st" using that(1) by (simp add: wf_def)
    have w1: "wf ?st1" using that(1) by (rule wf_on_body)
    then have h1: "heap_ok ?st1" and u1: "unlocked ?st1" by (simp_all add: wf_def)
    have s1: "seq ?st1 n = Some [Some l]"
      using on_body_seq [OF h, of n l] not_HasListeners_entries [OF h that(4)] by simp
    have "seq ?st2 n = Some ([] @ [])"
      by (rule Off_body_one_match [OF h1, where c = "Some l"]) (simp_all add: s1)
    moreover have "heap_ok ?st2" using h1 by (rule Off_body_heap_ok)
    ultimately have "\<not> HasListeners n ?st2" by (simp add: HasListeners_seq)
    then show ?thesis using On_single [OF that(1-3)] Off_unlocked [OF u1] by simp
  qed
  have E: "\<exists>st'. Off n l st = Some st' \<and> seq st' n = Some [] \<and> \<not> HasListeners n st'"
    if "wf st" "seq st n = Some [c]" "Pointer c = Pointer (Some l)"
  proof -
    let ?st1 = "Off_body n l st"
    have h: "heap_ok st" and u: "unlocked st" using that(1) by (simp_all add: wf_def)
    have s1: "seq ?st1 n = Some ([] @ [])"
      by (rule Off_body_one_match [OF h, where c = c]) (simp_all add: that)
    moreover have "heap_ok ?st1" using h by (rule Off_body_heap_ok)
    ultimately have "\<not> HasListeners n ?st1" by (simp add: HasListeners_seq)
    then show ?thesis using Off_unlocked [OF u] s1 by simp
  qed
  show ?thesis using A B C D E by blast
qed

section \<open>The registry\<close>

lemma registry_ok0: "registry_ok registry0"
  by (simp add: registry_ok_def registry0_def the_map_def)

lemma GetDispatcher_known:
  assumes "key_of k = Some key" "the_map r key = Some d"
  shows "GetDispatcher k r = Some (d, r)"
  using assms
  by (cases k) (auto simp add: GetDispatcher_def getDispatcher_def the_map_def split: option.splits)

lemma GetDispatcher_new:
  assumes "key_of k = Some key" "the_map r key = None"
  shows "GetDispatcher k r =
     Some (next_instance r,
           r\<lparr>dispatchers := Some ((the_map r)(key \<mapsto> next_instance r)),
             instances := (instances r)(next_instance r \<mapsto> NewDispatcher),
             next_instance := Suc (next_instance r)\<rparr>)"
  using assms
  by (cases k) (auto simp add: GetDispatcher_def getDispatcher_def the_map_def split: option.splits)

lemma GetDispatcher_cases:
  assumes "key_of k = Some key"
  obtains d where "the_map r key = Some d" "GetDispatcher k r = Some (d, r)"
  | r1 where "the_map r key = None" "GetDispatcher k r = Some (next_instance r, r1)"
      "the_map r1 = (the_map r)(key \<mapsto> next_instance r)"
      "instances r1 = (instances r)(next_instance r \<mapsto> NewDispatcher)"
      "next_instance r1 = Suc (next_instance r)"
proof (cases "the_map r key")
  case None
  show ?thesis
    by (rule that(2) [OF None GetDispatcher_new [OF assms None]]) (simp_all add: the_map_def)
next
  case (Some d)
  show ?thesis by (rule that(1) [OF Some GetDispatcher_known [OF assms Some]])
qed

lemma GetDispatcher_ok:
  assumes "registry_ok r" "key_of k = Some key" "GetDispatcher k r = Some (d, r1)"
  shows "registry_ok r1 \<and> the_map r1 key = Some d
         \<and> (\<forall>k' a. the_map r k' = Some a \<longrightarrow> the_map r1 k' = Some a)"
proof (rule GetDispatcher_cases [OF assms(2), of r])
  fix d' assume "the_map r key = Some d'" "GetDispatcher k r = Some (d', r)"
  then show ?thesis using assms by simp
next
  fix r1'
  assume a: "the_map r key = None" "GetDispatcher k r = Some (next_instance r, r1')"
      "the_map r1' = (the_map r)(key \<mapsto> next_instance r)"
      "instances r1' = (instances r)(next_instance r \<mapsto> NewDispatcher)"
      "next_instance r1' = Suc (next_instance r)"
  then have e: "d = next_instance r" "r1 = r1'" using assms(3) by simp_all
  have lt: "a < next_instance r" if "the_map r k' = Some a" for k' a
    using assms(1) that by (auto simp add: registry_ok_def)
  have "registry_ok r1'"
    unfolding registry_ok_def a(3,4,5)
    using assms(1) a(1) by (auto simp add: registry_ok_def dest: lt)
  moreover have "\<forall>k' a. the_map r k' = Some a \<longrightarrow> the_map r1' k' = Some a"
    using a(1) by (auto simp add: a(3))
  ultimately show ?thesis using e a(3) by simp
qed

lemma GetDispatcher_all_keeps:
  assumes "registry_ok r" "the_map r key = Some d" "\<forall>k \<in> set ks. key_of k \<noteq> None"
  shows "\<exists>r'. GetDispatcher_all ks r = Some r' \<and> registry_ok r' \<and> the_map r' key = Some d"
  using assms
proof (induction ks arbitrary: r)
  case Nil
  then show ?case by simp
next
  case (Cons k ks)
  then obtain key' where key': "key_of k = Some key'" by auto
  obtain d' r1 where g: "GetDispatcher k r = Some (d', r1)"
    by (rule GetDispatcher_cases [OF key', of r]) auto
  have "registry_ok r1" "the_map r1 key = Some d"
    using GetDispatcher_ok [OF Cons.prems(1) key' g] Cons.prems(2) by simp_all
  then show ?case
    using Cons.IH [of r1] Cons.prems(3) g by simp
qed

text \<open>
  C7. On a registry the program can reach, \<open>GetDispatcher\<close> with nil or a string returns
  an instance, and a second call with the same key returns the same instance and leaves
  the registry as it is. When the key is new, the instance is a newly allocated, empty
  dispatcher that is stored under no other key; when the key is known, nothing changes.
  Nil stands for the default key. A different key gives a different instance. After
  any further run of calls, the key still gives the instance it gave first.
\<close>

theorem registry_singleton:
  assumes "registry_ok r" "key_of k = Some key"
  shows "\<exists>d r1. GetDispatcher k r = Some (d, r1) \<and> registry_ok r1
          \<and> GetDispatcher k r1 = Some (d, r1)
          \<and> (the_map r key = None \<longrightarrow>
                instances r1 d = Some NewDispatcher \<and> instances r d = None
                \<and> (\<forall>k'. the_map r k' \<noteq> Some d))
          \<and> (the_map r key \<noteq> None \<longrightarrow> r1 = r)
          \<and> GetDispatcher Nil r = GetDispatcher (Str DefaultDispatcherKey) r
          \<and> (\<forall>k' key' d' r2. key_of k' = Some key' \<and> key' \<noteq> key
                \<and> GetDispatcher k' r1 = Some (d', r2) \<longrightarrow> d' \<noteq> d)
          \<and> (\<forall>ks. (\<forall>k' \<in> set ks. key_of k' \<noteq> None) \<longrightarrow>
                (\<exists>r2. GetDispatcher_all ks r1 = Some r2 \<and> GetDispatcher k r2 = Some (d, r2)))"
proof -
  obtain d r1 where g: "GetDispatcher k r = Some (d, r1)"
    by (rule GetDispatcher_cases [OF assms(2), of r]) auto
  have ok1: "registry_ok r1" and m1: "the_map r1 key = Some d"
    using GetDispatcher_ok [OF assms g] by simp_all
  have again: "GetDispatcher k r1 = Some (d, r1)"
    using GetDispatcher_known [OF assms(2) m1] .
  have new: "instances r1 d = Some NewDispatcher \<and> instances r d = None
             \<and> (\<forall>k'. the_map r k' \<noteq> Some d)" if "the_map r key = None"
  proof -
    have e: "d = next_instance r" "instances r1 = (instances r)(next_instance r \<mapsto> NewDispatcher)"
      using GetDispatcher_new [OF assms(2) that] g by auto
    have "the_map r k' \<noteq> Some d" for k'
      using assms(1) e(1) by (auto simp add: registry_ok_def)
    moreover have "instances r d = None"
      using assms(1) e(1) by (simp add: registry_ok_def)
    ultimately show ?thesis using e by simp
  qed
  have old: "r1 = r" if "the_map r key \<noteq> None"
    using that GetDispatcher_known [OF assms(2), of r] g by auto
  have dflt: "GetDispatcher Nil r = GetDispatcher (Str DefaultDispatcherKey) r"
    by (simp add: GetDispatcher_def)
  have distinct: "d' \<noteq> d"
    if "key_of k' = Some key'" "key' \<noteq> key" "GetDispatcher k' r1 = Some (d', r2)"
    for k' key' d' r2
  proof
    assume "d' = d"
    have "registry_ok r2" "the_map r2 key' = Some d'" "the_map r2 key = Some d"
      using GetDispatcher_ok [OF ok1 that(1,3)] m1 by simp_all
    then have "key' = key" using \<open>d' = d\<close> by (auto simp add: registry_ok_def)
    then show False using that(2) by simp
  qed
  have life: "\<exists>r2. GetDispatcher_all ks r1 = Some r2 \<and> GetDispatcher k r2 = Some (d, r2)"
    if ks: "\<forall>k' \<in> set ks. key_of k' \<noteq> None" for ks
  proof -
    obtain r2 where "GetDispatcher_all ks r1 = Some r2" "the_map r2 key = Some d"
      using GetDispatcher_all_keeps [OF ok1 m1 ks] by blast
    then show ?thesis using GetDispatcher_known [OF assms(2)] by blast
  qed
  have distinct': "\<forall>k' key' d' r2. key_of k' = Some key' \<and> key' \<noteq> key
                \<and> GetDispatcher k' r1 = Some (d', r2) \<longrightarrow> d' \<noteq> d"
    using distinct by blast
  have life': "\<forall>ks. (\<forall>k' \<in> set ks. key_of k' \<noteq> None) \<longrightarrow>
                (\<exists>r2. GetDispatcher_all ks r1 = Some r2 \<and> GetDispatcher k r2 = Some (d, r2))"
    using life by blast
  show ?thesis
    apply (rule exI [of _ d], rule exI [of _ r1])
    apply (intro conjI)
           apply (rule g)
          apply (rule ok1)
         apply (rule again)
        apply (simp add: new)
       apply (simp add: old)
      apply (rule dflt)
     apply (rule distinct')
    apply (rule life')
    done
qed

text \<open>
  The theorem of C7 on the registry of a program that has not called \<open>GetDispatcher\<close> yet:
  two calls with nil give one new dispatcher, and \<^verbatim>\<open>"foo"\<close> gives another.
\<close>

theorem registry_singleton_witness:
  "registry_ok registry0 \<and> key_of Nil = Some DefaultDispatcherKey
   \<and> (\<exists>d r1. GetDispatcher Nil registry0 = Some (d, r1)
         \<and> GetDispatcher Nil r1 = Some (d, r1)
         \<and> instances r1 d = Some NewDispatcher
         \<and> (\<forall>d' r2. GetDispatcher (Str ''foo'') r1 = Some (d', r2) \<longrightarrow> d' \<noteq> d))"
proof -
  have ok: "registry_ok registry0"
    by (simp add: registry_ok_def registry0_def the_map_def)
  have key: "key_of Nil = Some DefaultDispatcherKey" by simp
  have none: "the_map registry0 DefaultDispatcherKey = None"
    by (simp add: registry0_def the_map_def)
  have foo: "key_of (Str ''foo'') = Some ''foo'' \<and> ''foo'' \<noteq> DefaultDispatcherKey"
    by (simp add: DefaultDispatcherKey_def)
  show ?thesis
    using ok key none foo registry_singleton [OF ok key] by blast
qed

section \<open>Dispatch and the propagation flag\<close>

lemma append_slice_world:
  "append_slice s vs (st\<lparr>world := w\<rparr>)
   = (fst (append_slice s vs st), (snd (append_slice s vs st))\<lparr>world := w\<rparr>)"
  by (simp add: append_slice_def Let_def)

lemma store_world: "store n s (st\<lparr>world := w\<rparr>) = (store n s st)\<lparr>world := w\<rparr>"
  by (simp add: store_def)

lemma Off_loop_world:
  "Off_loop n p ls is (st\<lparr>world := w\<rparr>) = (Off_loop n p ls is st)\<lparr>world := w\<rparr>"
proof (induction "is" arbitrary: st)
  case Nil
  show ?case by simp
next
  case (Cons i "is")
  show ?case
    by (simp add: Cons.IH [symmetric] append_slice_world store_world case_prod_beta)
qed

lemma lookup_world [simp]: "lookup (st\<lparr>world := w\<rparr>) n = lookup st n"
  by (simp add: lookup_def)

lemma Off_body_world: "Off_body n l (st\<lparr>world := w\<rparr>) = (Off_body n l st)\<lparr>world := w\<rparr>"
  by (simp add: Off_body_def Off_loop_world)

lemma Off_body_keeps_world: "world (Off_body n l st) = world st"
proof -
  have "Off_body n l st = Off_body n l (st\<lparr>world := world st\<rparr>)" by simp
  also have "\<dots> = (Off_body n l st)\<lparr>world := world st\<rparr>" by (rule Off_body_world)
  finally have "world (Off_body n l st) = world ((Off_body n l st)\<lparr>world := world st\<rparr>)"
    by simp
  then show ?thesis by simp
qed

lemma removal_world: "removal l (st\<lparr>world := w\<rparr>) = (removal l st)\<lparr>world := w\<rparr>"
  by (induction l arbitrary: st) (simp_all add: Off_body_world)

lemma removal_keeps_world: "world (removal l st) = world st"
  by (induction l arbitrary: st) (simp_all add: Off_body_keeps_world)

lemma call_body_decomp: "call_body l e st = (removal l st)\<lparr>world := run l e (world st)\<rparr>"
proof (induction l arbitrary: st)
  case (Func pc body)
  show ?case by simp
next
  case (ExecuteRemove n l)
  show ?case by (simp add: ExecuteRemove.IH Off_body_world)
qed

lemma schedule_world:
  "schedule s is (st\<lparr>world := w\<rparr>)
   = map_option (\<lambda>(ls, st'). (ls, st'\<lparr>world := w\<rparr>)) (schedule s is st)"
proof (induction "is" arbitrary: st)
  case Nil
  show ?case by simp
next
  case (Cons i "is")
  show ?case
    by (simp add: removal_world Cons.IH option.map_comp comp_def case_prod_beta
             split: option.splits)
qed

lemma dispatch_body_schedule:
  "dispatch_body s e is st
   = map_option (\<lambda>(ls, st'). st'\<lparr>world := foldl (\<lambda>w l. run l e w) (world st) ls\<rparr>)
       (schedule s is st)"
proof (induction "is" arbitrary: st)
  case Nil
  show ?case by simp
next
  case (Cons i "is")
  show ?case
    by (simp add: call_body_decomp Cons.IH schedule_world option.map_comp comp_def
          case_prod_beta removal_keeps_world split: option.splits)
qed

lemma Name_StopPropagation [simp]: "Name e (StopPropagation e' h) = Name e h"
  by (simp add: Name_def StopPropagation_def)

lemma invoked_world:
  "Name e (evs w) = Name e (evs (world st)) \<Longrightarrow> invoked e (st\<lparr>world := w\<rparr>) = invoked e st"
  by (simp add: invoked_def schedule_world option.map_comp comp_def case_prod_beta)

lemma schedule_Func:
  "map ((!) (arrays st (arr s))) is = map Some ls \<Longrightarrow> \<forall>l \<in> set ls. \<exists>pc b. l = Func pc b \<Longrightarrow>
   schedule s is st = Some (ls, st)"
proof (induction "is" arbitrary: ls)
  case Nil
  then show ?case by simp
next
  case (Cons i "is")
  then obtain l ls' where ls: "ls = l # ls'" "arrays st (arr s) ! i = Some l"
    "map ((!) (arrays st (arr s))) is = map Some ls'"
    by (cases ls) auto
  obtain pc b where l: "l = Func pc b" using Cons.prems(2) ls(1) by auto
  have "schedule s is st = Some (ls', st)"
    using Cons.IH [OF ls(3)] Cons.prems(2) ls(1) by simp
  then show ?case by (simp add: ls l)
qed

lemma world_fresh [simp]: "world (fresh w) = w"
  by (simp add: fresh_def)

lemma entries_fresh [simp]: "entries (fresh w) n = []"
  by (simp add: entries_def seq_def fresh_def NewDispatcher_def)

lemma heap_ok_fresh [simp]: "heap_ok (fresh w)"
  using wf_fresh [of w] by (simp add: wf_def)

lemma Name_w0 [simp]: "Name 0 (evs w0) = ''test_event''"
  by (simp add: w0_def NewParamsEvent_def empty_estore_def Name_def)

text \<open>
  What \<open>Dispatch\<close> reads. On a well-formed dispatcher it runs the listeners of \<open>schedule\<close>, one after the
  other on the same event, each on the world the one before it left. That list is
  computed from the dispatcher alone: it is the same in every world in which the event
  has the same name, and so the same whether or not the propagation of this or any
  other event has been stopped, before the dispatch or by an earlier listener in it.
  When the listeners registered under the event's name are functions of the caller,
  the list is all of them, in the order of registration.
\<close>

theorem Dispatch_ignores_flag:
  assumes "wf st"
  shows "Dispatch e st =
           (case schedule (lookup st (Name e (evs (world st))))
                   [0..<len (lookup st (Name e (evs (world st))))] st of
              None \<Rightarrow> None
            | Some (ls, st') \<Rightarrow> Some (e, st'\<lparr>world := foldl (\<lambda>w l. run l e w) (world st) ls\<rparr>))
         \<and> (\<forall>w. Name e (evs w) = Name e (evs (world st)) \<longrightarrow>
               invoked e (st\<lparr>world := w\<rparr>) = invoked e st)
         \<and> invoked e (st\<lparr>world := (world st)\<lparr>evs := StopPropagation e' (evs (world st))\<rparr>\<rparr>)
             = invoked e st
         \<and> (entries st (Name e (evs (world st))) = map Some ls
              \<and> (\<forall>l \<in> set ls. \<exists>pc b. l = Func pc b) \<longrightarrow>
              invoked e st = Some ls
              \<and> Dispatch e st = Some (e, st\<lparr>world := foldl (\<lambda>w l. run l e w) (world st) ls\<rparr>))"
proof -
  let ?s = "lookup st (Name e (evs (world st)))"
  have u: "unlocked st" and h: "heap_ok st" using assms by (simp_all add: wf_def)
  have A: "Dispatch e st =
           (case schedule ?s [0..<len ?s] st of
              None \<Rightarrow> None
            | Some (ls, st') \<Rightarrow> Some (e, st'\<lparr>world := foldl (\<lambda>w l. run l e w) (world st) ls\<rparr>))"
    by (simp add: Dispatch_unlocked [OF u] dispatch_body_schedule split: option.splits)
  have B: "\<forall>w. Name e (evs w) = Name e (evs (world st)) \<longrightarrow>
               invoked e (st\<lparr>world := w\<rparr>) = invoked e st"
    by (simp add: invoked_world)
  have C: "invoked e (st\<lparr>world := (world st)\<lparr>evs := StopPropagation e' (evs (world st))\<rparr>\<rparr>)
             = invoked e st"
    by (rule invoked_world) simp
  have D: "invoked e st = Some ls
           \<and> Dispatch e st = Some (e, st\<lparr>world := foldl (\<lambda>w l. run l e w) (world st) ls\<rparr>)"
    if "entries st (Name e (evs (world st))) = map Some ls" "\<forall>l \<in> set ls. \<exists>pc b. l = Func pc b"
  proof -
    have "map ((!) (arrays st (arr ?s))) [0..<len ?s] = map Some ls"
      using lookup_cells [OF h] that(1) by simp
    then have "schedule ?s [0..<len ?s] st = Some (ls, st)"
      using that(2) by (rule schedule_Func)
    then show ?thesis by (simp add: A invoked_def)
  qed
  show ?thesis using A B C D by blast
qed

text \<open>
  The same on a dispatcher whose first listener stops the propagation: the second
  listener runs all the same, and the flag is set when \<open>Dispatch\<close> returns.
\<close>

theorem Dispatch_ignores_flag_witness:
  "wf (on_body ''test_event'' (logger 2) (on_body ''test_event'' stopper (fresh w0)))
   \<and> map_option (\<lambda>(r, st). (IsPropagationStopped 0 (evs (world st)), ext (world st)))
        (Dispatch 0 (on_body ''test_event'' (logger 2) (on_body ''test_event'' stopper (fresh w0))))
      = Some (True, [2])"
proof -
  let ?st = "on_body ''test_event'' (logger 2) (on_body ''test_event'' stopper (fresh w0))"
  have w: "wf ?st" by (intro wf_on_body wf_fresh)
  have h0: "heap_ok (fresh w0)" using wf_fresh [of w0] by (simp add: wf_def)
  have h1: "heap_ok (on_body ''test_event'' stopper (fresh w0))"
    using h0 by (rule on_body_heap_ok)
  have e: "entries ?st (Name 0 (evs (world ?st))) = map Some [stopper, logger 2]"
    by (simp add: entries_on_body [OF h1] entries_on_body [OF h0])
  have f: "\<forall>l \<in> set [stopper, logger 2]. \<exists>pc b. l = Func pc b"
    by (simp add: stopper_def logger_def)
  have "Dispatch 0 ?st
        = Some (0, ?st\<lparr>world := foldl (\<lambda>w l. run l 0 w) (world ?st) [stopper, logger 2]\<rparr>)"
    using Dispatch_ignores_flag [OF w, of 0 0 "[stopper, logger 2]"] e f by blast
  then show ?thesis
    using w
    by (simp add: stopper_def logger_def fresh_def w0_def IsPropagationStopped_def
          StopPropagation_def)
qed

section \<open>Concrete runs\<close>

text \<open>
  The theorem of C4 on a new dispatcher: \<^verbatim>\<open>" a  b a"\<close> registers twice under \<open>a\<close> and once
  under \<open>b\<close>; a string of spaces registers nothing.
\<close>

theorem On_appends_witness:
  "wf (fresh w0)
   \<and> (\<exists>st'. On '' a  b a'' (logger 2) (fresh w0) = Some st'
         \<and> entries st' ''a'' = [Some (logger 2), Some (logger 2)]
         \<and> entries st' ''b'' = [Some (logger 2)]
         \<and> entries st' ''c'' = [])
   \<and> On ''  '' (logger 2) (fresh w0) = Some (fresh w0)"
proof -
  have g: "getNames '' a  b a'' = [''a'', ''b'', ''a'']"
    by (simp add: getNames_def)
  have g': "getNames ''  '' = []"
    by (simp add: getNames_def)
  obtain st' where st': "On '' a  b a'' (logger 2) (fresh w0) = Some st'"
    "\<forall>m. entries st' m = entries (fresh w0) m
        @ replicate (count_list (getNames '' a  b a'') m) (Some (logger 2))"
    using On_appends [OF wf_fresh, of "'' a  b a''" "logger 2" w0] by blast
  have a: "entries st' ''a'' = [Some (logger 2), Some (logger 2)]"
    unfolding st'(2) [rule_format] g by simp
  have b: "entries st' ''b'' = [Some (logger 2)]"
    unfolding st'(2) [rule_format] g by simp
  have c: "entries st' ''c'' = []"
    unfolding st'(2) [rule_format] g by simp
  obtain st'' where st'': "On ''  '' (logger 2) (fresh w0) = Some st''"
    "getNames ''  '' = [] \<longrightarrow> st'' = fresh w0"
    using On_appends [OF wf_fresh, of "''  ''" "logger 2" w0] by blast
  then have e: "On ''  '' (logger 2) (fresh w0) = Some (fresh w0)"
    unfolding g' by simp
  show ?thesis
    using wf_fresh [of w0] st'(1) a b c e by blast
qed

text \<open>
  C4 as stated fails for whitespace other than the space: \<open>a\<close>, tab, \<open>b\<close> is one name, and
  \<open>On\<close> registers under it, not under \<open>a\<close> and \<open>b\<close>.
\<close>

theorem On_whitespace_counterexample:
  "getNames tab_name = [tab_name]
   \<and> map_option (\<lambda>st. (HasListeners ''a'' st, HasListeners ''b'' st, HasListeners tab_name st))
        (On tab_name (logger 1) (fresh w0)) = Some (False, False, True)"
  by code_simp

text \<open>
  The theorem of C5 on a new dispatcher, as in the repository's test of \<open>On\<close> and \<open>Off\<close>.
\<close>

theorem HasListeners_iff_witness:
  "wf (fresh w0) \<and> ''test_event'' \<noteq> [] \<and> CHR '' '' \<notin> set ''test_event''
   \<and> \<not> HasListeners ''test_event'' (fresh w0)
   \<and> (\<exists>st' st''. On ''test_event'' (logger 2) (fresh w0) = Some st'
         \<and> HasListeners ''test_event'' st'
         \<and> Off ''test_event'' (logger 2) st' = Some st''
         \<and> \<not> HasListeners ''test_event'' st'')"
proof -
  have n: "''test_event'' \<noteq> [] \<and> CHR '' '' \<notin> set ''test_event''" by simp
  have no: "\<not> HasListeners ''test_event'' (fresh w0)"
    by (simp add: HasListeners_def fresh_def NewDispatcher_def)
  show ?thesis
    using wf_fresh [of w0] n no
      HasListeners_iff [of "''test_event''" "fresh w0" "logger 2"]
    by (metis option.inject)
qed

text \<open>
  C5 as stated fails for a string that is not one name: after \<open>On\<close> with \<^verbatim>\<open>"a b"\<close> or with
  the empty string, \<open>HasListeners\<close> of that string is false.
\<close>

theorem On_HasListeners_counterexample:
  "map_option (HasListeners ''a b'') (On ''a b'' (logger 1) (fresh w0)) = Some False
   \<and> map_option (HasListeners '''') (On '''' (logger 1) (fresh w0)) = Some False"
  by code_simp

text \<open>
  The theorem of C6 after two registrations under \<^verbatim>\<open>test_event\<close>: the log stays empty.
\<close>

theorem OffAll_removes_witness:
  "wf (on_body ''test_event'' (logger 3) (on_body ''test_event'' (logger 2) (fresh w0)))
   \<and> HasListeners ''test_event''
        (on_body ''test_event'' (logger 3) (on_body ''test_event'' (logger 2) (fresh w0)))
   \<and> (\<exists>st'. OffAll ''test_event''
              (on_body ''test_event'' (logger 3) (on_body ''test_event'' (logger 2) (fresh w0)))
            = Some st'
         \<and> \<not> HasListeners ''test_event'' st'
         \<and> Dispatch 0 st' = Some (0, st') \<and> ext (world st') = [])"
proof -
  let ?st = "on_body ''test_event'' (logger 3) (on_body ''test_event'' (logger 2) (fresh w0))"
  have w: "wf ?st" by (intro wf_on_body wf_fresh)
  have h1: "heap_ok (on_body ''test_event'' (logger 2) (fresh w0))"
    by (rule on_body_heap_ok) simp
  have H: "HasListeners ''test_event'' ?st"
    using w by (simp add: HasListeners_entries wf_def entries_on_body [OF h1])
  obtain st' where st': "OffAll ''test_event'' ?st = Some st'" "world st' = world ?st"
    "\<not> HasListeners ''test_event'' st'"
    "\<forall>e w. Name e (evs w) = ''test_event'' \<longrightarrow>
        Dispatch e (st'\<lparr>world := w\<rparr>) = Some (e, st'\<lparr>world := w\<rparr>)"
    using OffAll_removes [OF w, of "''test_event''"] by blast
  have "Dispatch 0 (st'\<lparr>world := w0\<rparr>) = Some (0, st'\<lparr>world := w0\<rparr>)"
    using st'(4) by simp
  moreover have "st'\<lparr>world := w0\<rparr> = st'" using st'(2) by simp
  ultimately have "Dispatch 0 st' = Some (0, st')" by simp
  moreover have "ext (world st') = []" using st'(2) by (simp add: w0_def)
  ultimately show ?thesis using w H st'(1,3) by blast
qed

text \<open>
  The theorem of C10 on a dispatcher with two listeners under \<open>a\<close> and one under \<open>b\<close>.
\<close>

theorem registration_frame_witness:
  "wf (on_body ''b'' (logger 4) (on_body ''a'' (logger 3) (on_body ''a'' (logger 2) (fresh w0))))
   \<and> (\<exists>st'. On ''a c'' (logger 5)
               (on_body ''b'' (logger 4) (on_body ''a'' (logger 3) (on_body ''a'' (logger 2) (fresh w0))))
             = Some st' \<and> seq st' ''b'' = Some [Some (logger 4)])
   \<and> (\<exists>st'. Off ''a'' (logger 2)
               (on_body ''b'' (logger 4) (on_body ''a'' (logger 3) (on_body ''a'' (logger 2) (fresh w0))))
             = Some st' \<and> seq st' ''b'' = Some [Some (logger 4)]
               \<and> seq st' ''a'' = Some [Some (logger 3)])
   \<and> (\<exists>st'. OffAll ''a''
               (on_body ''b'' (logger 4) (on_body ''a'' (logger 3) (on_body ''a'' (logger 2) (fresh w0))))
             = Some st' \<and> seq st' ''b'' = Some [Some (logger 4)])"
proof -
  let ?s1 = "on_body ''a'' (logger 2) (fresh w0)"
  let ?s2 = "on_body ''a'' (logger 3) ?s1"
  let ?st = "on_body ''b'' (logger 4) ?s2"
  have w: "wf ?st" by (intro wf_on_body wf_fresh)
  have h1: "heap_ok ?s1" by (rule on_body_heap_ok) simp
  have h2: "heap_ok ?s2" using h1 by (rule on_body_heap_ok)
  have b: "seq ?st ''b'' = Some [Some (logger 4)]"
    by (simp add: on_body_seq [OF h2] entries_on_body [OF h1] entries_on_body [OF heap_ok_fresh])
  have a: "seq ?st ''a'' = Some ([] @ Some (logger 2) # [Some (logger 3)])"
    by (simp add: on_body_frame [OF h2] on_body_seq [OF h1] entries_on_body)
  have g: "''b'' \<notin> set (getNames ''a c'')" by (simp add: getNames_def)
  have p: "Pointer (Some (logger 2)) = Pointer (Some (logger 2))
           \<and> (\<forall>x \<in> set [] \<union> set [Some (logger 3)]. Pointer x \<noteq> Pointer (Some (logger 2 :: nat list Listener)))"
    by (simp add: logger_def)
  have 1: "\<exists>st'. On ''a c'' (logger 5) ?st = Some st' \<and> seq st' ''b'' = Some [Some (logger 4)]"
    using registration_frame [OF w, of "''b''" "''a c''" "logger 5"] g b by auto
  have 2: "\<exists>st'. Off ''a'' (logger 2) ?st = Some st' \<and> seq st' ''b'' = Some [Some (logger 4)]
               \<and> seq st' ''a'' = Some [Some (logger 3)]"
    using registration_frame [OF w, of "''b''" "''a''" "logger 2" "[]" "Some (logger 2)" "[Some (logger 3)]"]
      a b p by auto
  have 3: "\<exists>st'. OffAll ''a'' ?st = Some st' \<and> seq st' ''b'' = Some [Some (logger 4)]"
    using registration_frame [OF w, of "''b''" "''a''"] b by auto
  show ?thesis using w 1 2 3 by blast
qed

text \<open>
  \<open>Once\<close> with one name on a new dispatcher, with a listener that writes to the log.
\<close>

theorem Once_single_name_witness:
  "wf (fresh w0) \<and> ''test_event'' \<noteq> [] \<and> CHR '' '' \<notin> set ''test_event''
   \<and> \<not> HasListeners ''test_event'' (fresh w0)
   \<and> (\<exists>st1 st2. Once ''test_event'' (logger 2) (fresh w0) = Some st1
         \<and> HasListeners ''test_event'' st1
         \<and> Dispatch 0 st1 = Some (0, st2)
         \<and> \<not> HasListeners ''test_event'' st2
         \<and> ext (world st2) = [2]
         \<and> Dispatch 0 st2 = Some (0, st2))"
proof -
  have n: "''test_event'' \<noteq> []" "CHR '' '' \<notin> set ''test_event''" by simp_all
  have no: "\<not> HasListeners ''test_event'' (fresh w0)"
    by (simp add: HasListeners_def fresh_def NewDispatcher_def)
  obtain st1 where st1: "Once ''test_event'' (Func 2 (\<lambda>e w. w\<lparr>ext := ext w @ [2]\<rparr>)) (fresh w0) = Some st1"
    "world st1 = world (fresh w0)" "HasListeners ''test_event'' st1"
    "\<forall>e w. Name e (evs w) = ''test_event'' \<longrightarrow>
               (\<exists>st2. Dispatch e (st1\<lparr>world := w\<rparr>) = Some (e, st2) \<and> wf st2
                   \<and> world st2 = w\<lparr>ext := ext w @ [2]\<rparr> \<and> \<not> HasListeners ''test_event'' st2
                   \<and> (\<forall>e' w'. Name e' (evs w') = ''test_event'' \<longrightarrow>
                        Dispatch e' (st2\<lparr>world := w'\<rparr>) = Some (e', st2\<lparr>world := w'\<rparr>)))"
    using Once_single_name [OF wf_fresh n no, of 2 "\<lambda>e w. w\<lparr>ext := ext w @ [2]\<rparr>"] by blast
  have s1: "st1\<lparr>world := w0\<rparr> = st1" using st1(2) by simp
  obtain st2 where st2: "Dispatch 0 st1 = Some (0, st2)"
    "world st2 = w0\<lparr>ext := ext w0 @ [2]\<rparr>" "\<not> HasListeners ''test_event'' st2"
    "\<forall>e' w'. Name e' (evs w') = ''test_event'' \<longrightarrow>
        Dispatch e' (st2\<lparr>world := w'\<rparr>) = Some (e', st2\<lparr>world := w'\<rparr>)"
    using st1(4) s1 Name_w0 by metis
  have "Name 0 (evs (world st2)) = ''test_event''" by (simp add: st2(2))
  then have "Dispatch 0 (st2\<lparr>world := world st2\<rparr>) = Some (0, st2\<lparr>world := world st2\<rparr>)"
    using st2(4) by blast
  then have d2: "Dispatch 0 st2 = Some (0, st2)" by simp
  have x: "ext (world st2) = [2]" by (simp add: st2(2) w0_def)
  show ?thesis
    using wf_fresh [of w0] n no st1(1,3) st2(1,3) d2 x by (auto simp add: logger_def)
qed

text \<open>
  C1. The code does not do what the claim says when \<open>Once\<close> is given more than one name.
  After \<open>Once\<close> with \<^verbatim>\<open>"a b"\<close> on a new dispatcher both wrappers are registered under the key
  \<^verbatim>\<open>"a b"\<close> and none under \<open>a\<close> or \<open>b\<close>: \<open>HasListeners\<close> is false for \<open>a\<close> and for \<open>b\<close>, and a
  dispatch of an event named \<open>a\<close> does not call the listener. A dispatch of an event
  named \<^verbatim>\<open>"a b"\<close> calls the listener twice and removes no wrapper. (The loop of \<open>Once\<close>
  hands \<open>n\<close>, the whole argument, to \<open>on\<close>, where the loop of \<open>On\<close> hands it the token.)
\<close>

theorem Once_wrong_key:
  "map_option (\<lambda>st. (HasListeners ''a'' st, HasListeners ''b'' st, HasListeners ''a b'' st,
                     map Pointer (entries st ''a b'')))
     (Once ''a b'' (logger 1) (fresh w_ab))
   = Some (False, False, True, [ExecuteRemovePc, ExecuteRemovePc])
   \<and> map_option (\<lambda>(r, st). (r, ext (world st)))
        (do { st \<leftarrow> Once ''a b'' (logger 1) (fresh w_ab); Dispatch 1 st })
      = Some (1, [])
   \<and> map_option (\<lambda>(r, st). (r, HasListeners ''a b'' st, ext (world st)))
        (do { st \<leftarrow> Once ''a b'' (logger 1) (fresh w_ab); Dispatch 0 st })
      = Some (0, True, [1, 1])"
  by code_simp

text \<open>
  C2. The code does not do what the claim says: with one listener registered twice
  under a name, \<open>Off\<close> leaves one entry with that listener's identity, and \<open>HasListeners\<close>
  stays true. (The loop of \<open>Off\<close> goes on over the header it read first while its
  removals shift the cells of the array and store a header that is one shorter than
  that first one.)
\<close>

theorem Off_leaves_duplicate:
  "map_option (\<lambda>st. (HasListeners ''test_event'' st, map Pointer (entries st ''test_event'')))
     (do { st \<leftarrow> On ''test_event'' (logger 7) (fresh w0);
           st \<leftarrow> On ''test_event'' (logger 7) st;
           Off ''test_event'' (logger 7) st })
   = Some (True, [FuncPc 7])"
  by code_simp

text \<open>
  C3. The code does not do what the claim says: with a once-listener 0 registered before
  the listeners 1 and 2, \<open>Dispatch\<close> calls 0, then 2, then 2 again; listener 1 is not
  called. (The wrapper's \<open>Off\<close> shifts the cells of the array that the loop of
  \<open>dispatch\<close> is reading.)
\<close>

theorem Dispatch_skips_after_once:
  "map_option (\<lambda>(r, st). (r, ext (world st)))
     (do { st \<leftarrow> Once ''test_event'' (logger 0) (fresh w0);
           st \<leftarrow> On ''test_event'' (logger 1) st;
           st \<leftarrow> On ''test_event'' (logger 2) st;
           Dispatch 0 st })
   = Some (0, [0, 2, 2])"
  by code_simp

text \<open>
  C8. The code does not do what the claim says: with a once-listener that stops the
  propagation registered before the listeners 1 and 2, \<open>Dispatch\<close> calls listener 2 twice
  and does not call listener 1, and the flag is set when it returns. The flag is not the
  cause (after a plain first listener that stops the propagation both followers run, see
  above); it is the removal of the wrapper during the dispatch, as in C3.
\<close>

theorem Dispatch_after_stopping_once:
  "map_option (\<lambda>(r, st). (r, IsPropagationStopped 0 (evs (world st)), ext (world st)))
     (do { st \<leftarrow> Once ''test_event'' stopper (fresh w0);
           st \<leftarrow> On ''test_event'' (logger 1) st;
           st \<leftarrow> On ''test_event'' (logger 2) st;
           Dispatch 0 st })
   = Some (0, True, [2, 2])
   \<and> map_option (\<lambda>(r, st). (r, IsPropagationStopped 0 (evs (world st)), ext (world st)))
        (do { st \<leftarrow> On ''test_event'' stopper (fresh w0);
              st \<leftarrow> On ''test_event'' (logger 1) st;
              st \<leftarrow> On ''test_event'' (logger 2) st;
              Dispatch 0 st })
      = Some (0, True, [1, 2])"
  by code_simp

end
